theory Spec2Isabelle
  imports Main "HOL-Library.Word"
begin

unbundle bit_operations_syntax

section \<open>Common types\<close>

text \<open>
  Python exceptions raised by the storage core, as values.  \<open>StructError\<close> is
  \<open>struct.error\<close> (a value that does not fit its field, or a read that returned fewer
  bytes than the format needs), \<open>OSError\<close> a seek to a negative offset.  The code
  raises \<open>ValueError\<close> with several messages; \<open>verr\<close> names them.
\<close>

datatype verr =
    PtrArg | NoLocation | DateTooLong | UnsupportedType | SchemaMismatch | RowTooLarge
  | MissingIndexedColumn string

datatype error =
    StructError | ValueError verr | KeyError | IndexError | RuntimeError
  | OSError | UnicodeError | TypeError | CoercionNotModelled

text \<open>
  Modelled from the spec: the class \<open>RID\<close> of \<open>core/model/base.py\<close> is not part of the
  sources at hand; the spec gives it as the pair (page, slot).  The fields are Python
  integers; they are stored as unsigned 16-bit fields.
\<close>

record RID =
  page :: int
  slot :: int

section \<open>Row codec (rowfmt.py)\<close>

type_synonym byte = "8 word"

text \<open>
  The values a row holds.  A Python \<open>float\<close> is given by the 64 bits of its IEEE double,
  which is what \<open>struct.pack("<d", ...)\<close> writes and \<open>struct.unpack\<close> reads back.  A
  Python \<open>str\<close> is given by its UTF-8 encoding: \<open>encode("utf-8")\<close> is then the identity,
  and \<open>decode("utf-8")\<close> succeeds exactly on the byte strings \<open>utf8_ok\<close> accepts.
  \<open>VRid\<close> is the mapping \<open>{"page": p, "slot": s}\<close> that \<open>HeapFile.read\<close> attaches.
\<close>

datatype pyval = VNone | VInt int | VFloat "64 word" | VStr "byte list" | VRid int int

type_synonym row = "string \<rightharpoonup> pyval"
type_synonym schema = "(string \<times> string) list"

definition row_get :: "row \<Rightarrow> string \<Rightarrow> pyval" where
  "row_get r name = (case r name of None \<Rightarrow> VNone | Some v \<Rightarrow> v)"

subsection \<open>Little-endian fields\<close>

fun le_bytes :: "nat \<Rightarrow> int \<Rightarrow> byte list" where
  "le_bytes 0 v = []"
| "le_bytes (Suc n) v = word_of_int (v mod 256) # le_bytes n (v div 256)"

fun le_int :: "byte list \<Rightarrow> int" where
  "le_int [] = 0"
| "le_int (b # bs) = uint b + 256 * le_int bs"

text \<open>\<open>struct.pack\<close> raises when the value does not fit the field.\<close>

definition pack_H :: "int \<Rightarrow> error + byte list" where
  "pack_H v = (if 0 \<le> v \<and> v < 65536 then Inr (le_bytes 2 v) else Inl StructError)"

definition pack_i :: "int \<Rightarrow> error + byte list" where
  "pack_i v = (if - (2 ^ 31) \<le> v \<and> v < 2 ^ 31 then Inr (le_bytes 4 v) else Inl StructError)"

definition pack_d :: "64 word \<Rightarrow> byte list" where
  "pack_d w = le_bytes 8 (uint w)"

text \<open>\<open>struct.unpack_from(fmt, buf, off)\<close> raises when the buffer ends before the field.\<close>

definition field_from :: "byte list \<Rightarrow> nat \<Rightarrow> nat \<Rightarrow> error + byte list" where
  "field_from buf off n =
     (if off + n \<le> length buf then Inr (take n (drop off buf)) else Inl StructError)"

definition unpack_H_from :: "byte list \<Rightarrow> nat \<Rightarrow> error + int" where
  "unpack_H_from buf off = map_sum id le_int (field_from buf off 2)"

definition signed32 :: "int \<Rightarrow> int" where
  "signed32 u = (if u \<ge> 2 ^ 31 then u - 2 ^ 32 else u)"

definition unpack_i_from :: "byte list \<Rightarrow> nat \<Rightarrow> error + int" where
  "unpack_i_from buf off = map_sum id (\<lambda>bs. signed32 (le_int bs)) (field_from buf off 4)"

definition unpack_d_from :: "byte list \<Rightarrow> nat \<Rightarrow> error + 64 word" where
  "unpack_d_from buf off = map_sum id (\<lambda>bs. word_of_int (le_int bs)) (field_from buf off 8)"

subsection \<open>UTF-8\<close>

definition cont :: "byte \<Rightarrow> bool" where
  "cont b = (128 \<le> unat b \<and> unat b \<le> 191)"

text \<open>
  The well-formed UTF-8 byte sequences (no overlong forms, no surrogates, nothing above
  U+10FFFF), the ones the strict decoder accepts.
\<close>

fun utf8_ok :: "byte list \<Rightarrow> bool" where
  "utf8_ok [] = True"
| "utf8_ok (b0 # bs) =
     (let c = unat b0
      in if c \<le> 127 then utf8_ok bs
         else if 194 \<le> c \<and> c \<le> 223 then
           (case bs of b1 # r \<Rightarrow> cont b1 \<and> utf8_ok r | _ \<Rightarrow> False)
         else if 224 \<le> c \<and> c \<le> 239 then
           (case bs of
              b1 # b2 # r \<Rightarrow>
                cont b1 \<and> (c = 224 \<longrightarrow> 160 \<le> unat b1) \<and> (c = 237 \<longrightarrow> unat b1 \<le> 159)
                \<and> cont b2 \<and> utf8_ok r
            | _ \<Rightarrow> False)
         else if 240 \<le> c \<and> c \<le> 244 then
           (case bs of
              b1 # b2 # b3 # r \<Rightarrow>
                cont b1 \<and> (c = 240 \<longrightarrow> 144 \<le> unat b1) \<and> (c = 244 \<longrightarrow> unat b1 \<le> 143)
                \<and> cont b2 \<and> cont b3 \<and> utf8_ok r
            | _ \<Rightarrow> False)
         else False)"

definition utf8_decode :: "byte list \<Rightarrow> error + byte list" where
  "utf8_decode bs = (if utf8_ok bs then Inr bs else Inl UnicodeError)"

subsection \<open>Null bitmap\<close>

definition nullmap_size :: "nat \<Rightarrow> nat" where
  "nullmap_size n = (n + 7) div 8"

definition set_null :: "byte list \<Rightarrow> nat \<Rightarrow> error + byte list" where
  "set_null bm i =
     (if i div 8 < length bm
      then Inr (bm[i div 8 := (bm ! (i div 8)) OR push_bit (i mod 8) 1])
      else Inl IndexError)"

definition is_null :: "byte list \<Rightarrow> nat \<Rightarrow> error + bool" where
  "is_null bm i =
     (if i div 8 < length bm
      then Inr (drop_bit (i mod 8) (bm ! (i div 8)) AND 1 = 1)
      else Inl IndexError)"

subsection \<open>The bound of VARCHAR(N)\<close>

fun index_of :: "char \<Rightarrow> string \<Rightarrow> nat option" where
  "index_of c [] = None"
| "index_of c (x # xs) = (if x = c then Some 0 else map_option Suc (index_of c xs))"

text \<open>
  A type name is a string of code points below 256.  \<open>int(s)\<close> on such a string: white
  space around (the code points that \<open>int\<close> strips there), an optional sign, decimal
  digits with single underscores between them, at most 4300 digits (the default of
  \<open>sys.int_max_str_digits\<close>).  \<open>None\<close> is the \<open>ValueError\<close>.
\<close>

definition is_space :: "char \<Rightarrow> bool" where
  "is_space c = ((of_char c :: nat) \<in> set [9, 10, 11, 12, 13, 32, 133, 160])"

definition is_digit :: "char \<Rightarrow> bool" where
  "is_digit c = (48 \<le> (of_char c :: nat) \<and> (of_char c :: nat) \<le> 57)"

fun digits_val :: "string \<Rightarrow> nat \<Rightarrow> nat" where
  "digits_val [] acc = acc"
| "digits_val (c # cs) acc = digits_val cs (10 * acc + (of_char c - 48))"

fun digits_ok :: "string \<Rightarrow> bool" where
  "digits_ok [] = False"
| "digits_ok [c] = is_digit c"
| "digits_ok (c # d # cs) =
     (is_digit c \<and> (if d = CHR ''_'' then digits_ok cs else digits_ok (d # cs)))"

definition parse_int :: "string \<Rightarrow> int option" where
  "parse_int s =
     (let t = rev (dropWhile is_space (rev (dropWhile is_space s)));
          neg = (t \<noteq> [] \<and> hd t = CHR ''-'');
          ds = (if t \<noteq> [] \<and> (hd t = CHR ''-'' \<or> hd t = CHR ''+'') then tl t else t);
          dg = filter is_digit ds
      in if digits_ok ds \<and> length dg \<le> 4300
         then Some (if neg then - int (digits_val dg 0) else int (digits_val dg 0))
         else None)"

definition varchar_max :: "string \<Rightarrow> nat" where
  "varchar_max typ =
     (case index_of CHR ''('' typ of
        None \<Rightarrow> 65535
      | Some i \<Rightarrow>
          (case index_of CHR '')'' typ of
             None \<Rightarrow> 65535
           | Some j \<Rightarrow>
               (case parse_int (take (j - (i + 1)) (drop (i + 1) typ)) of
                  None \<Rightarrow> 65535
                | Some n \<Rightarrow> nat (max 0 (min 65535 n)))))"

definition startswith :: "string \<Rightarrow> string \<Rightarrow> bool" where
  "startswith s p = (take (length p) s = p)"

subsection \<open>pack\_row\<close>

text \<open>
  The coercions \<open>int(val)\<close>, \<open>float(val)\<close> and \<open>str(val)\<close> are the identity on a value
  that already has the type of its column.  What they do to values of other types
  (parsing, rounding, printing) is not modelled: \<open>CoercionNotModelled\<close> marks it;
  \<open>int(None)\<close> and \<open>int\<close> of a mapping raise \<open>TypeError\<close>.
\<close>

definition py_int :: "pyval \<Rightarrow> error + int" where
  "py_int v =
     (case v of VInt i \<Rightarrow> Inr i | VNone \<Rightarrow> Inl TypeError | VRid p s \<Rightarrow> Inl TypeError
      | _ \<Rightarrow> Inl CoercionNotModelled)"

definition py_float :: "pyval \<Rightarrow> error + 64 word" where
  "py_float v = (case v of VFloat w \<Rightarrow> Inr w | _ \<Rightarrow> Inl CoercionNotModelled)"

definition py_str_utf8 :: "pyval \<Rightarrow> error + byte list" where
  "py_str_utf8 v = (case v of VStr b \<Rightarrow> Inr b | _ \<Rightarrow> Inl CoercionNotModelled)"

definition pack_field :: "string \<Rightarrow> pyval \<Rightarrow> error + byte list" where
  "pack_field typ val =
     (if typ = ''INT'' then
        (case py_int val of Inl err \<Rightarrow> Inl err | Inr i \<Rightarrow> pack_i i)
      else if typ = ''FLOAT'' then
        (case py_float val of Inl err \<Rightarrow> Inl err | Inr w \<Rightarrow> Inr (pack_d w))
      else if startswith typ ''VARCHAR'' then
        (case py_str_utf8 val of
           Inl err \<Rightarrow> Inl err
         | Inr b0 \<Rightarrow>
             (let mx = varchar_max typ;
                  b = (if length b0 > mx then take mx b0 else b0)
              in case pack_H (int (length b)) of
                   Inl err \<Rightarrow> Inl err
                 | Inr lenb \<Rightarrow> Inr (lenb @ b)))
      else if typ = ''DATE'' then
        (case py_str_utf8 val of
           Inl err \<Rightarrow> Inl err
         | Inr b \<Rightarrow>
             if length b > 255 then Inl (ValueError DateTooLong)
             else (case pack_H (int (length b)) of
                     Inl err \<Rightarrow> Inl err
                   | Inr lenb \<Rightarrow> Inr (lenb @ b)))
      else Inl (ValueError UnsupportedType))"

text \<open>The loop over \<open>enumerate(schema)\<close>, with the null bitmap and the payload so far.\<close>

fun pack_cols :: "row \<Rightarrow> schema \<Rightarrow> nat \<Rightarrow> byte list \<Rightarrow> byte list \<Rightarrow> error + byte list \<times> byte list" where
  "pack_cols r [] i bm parts = Inr (bm, parts)"
| "pack_cols r ((name, typ) # rest) i bm parts =
     (if row_get r name = VNone then
        (case set_null bm i of
           Inl err \<Rightarrow> Inl err
         | Inr bm' \<Rightarrow> pack_cols r rest (Suc i) bm' parts)
      else
        (case pack_field typ (row_get r name) of
           Inl err \<Rightarrow> Inl err
         | Inr bs \<Rightarrow> pack_cols r rest (Suc i) bm (parts @ bs)))"

definition pack_row :: "row \<Rightarrow> schema \<Rightarrow> error + byte list" where
  "pack_row r sch =
     (let n = length sch
      in case pack_H (int n) of
           Inl err \<Rightarrow> Inl err
         | Inr header \<Rightarrow>
             (case pack_cols r sch 0 (replicate (nullmap_size n) 0) [] of
                Inl err \<Rightarrow> Inl err
              | Inr (nullmap, parts) \<Rightarrow> Inr (header @ nullmap @ parts)))"

subsection \<open>unpack\_row\<close>

text \<open>One non-null column: the decoded value and the offset after it.\<close>

definition unpack_field :: "string \<Rightarrow> byte list \<Rightarrow> nat \<Rightarrow> error + pyval \<times> nat" where
  "unpack_field typ buf off =
     (if typ = ''INT'' then
        (case unpack_i_from buf off of
           Inl err \<Rightarrow> Inl err
         | Inr v \<Rightarrow> Inr (VInt v, off + 4))
      else if typ = ''FLOAT'' then
        (case unpack_d_from buf off of
           Inl err \<Rightarrow> Inl err
         | Inr w \<Rightarrow> Inr (VFloat w, off + 8))
      else if startswith typ ''VARCHAR'' \<or> typ = ''DATE'' then
        (case unpack_H_from buf off of
           Inl err \<Rightarrow> Inl err
         | Inr ln \<Rightarrow>
             (case utf8_decode (take (nat ln) (drop (off + 2) buf)) of
                Inl err \<Rightarrow> Inl err
              | Inr s \<Rightarrow> Inr (VStr s, off + 2 + nat ln)))
      else Inl (ValueError UnsupportedType))"

fun unpack_cols :: "byte list \<Rightarrow> byte list \<Rightarrow> schema \<Rightarrow> nat \<Rightarrow> nat \<Rightarrow> row \<Rightarrow> error + row" where
  "unpack_cols buf bm [] i off out = Inr out"
| "unpack_cols buf bm ((name, typ) # rest) i off out =
     (case is_null bm i of
        Inl err \<Rightarrow> Inl err
      | Inr nul \<Rightarrow>
          if nul then unpack_cols buf bm rest (Suc i) off (out(name \<mapsto> VNone))
          else (case unpack_field typ buf off of
                  Inl err \<Rightarrow> Inl err
                | Inr (v, off') \<Rightarrow> unpack_cols buf bm rest (Suc i) off' (out(name \<mapsto> v))))"

definition unpack_row :: "byte list \<Rightarrow> schema \<Rightarrow> error + row" where
  "unpack_row buf sch =
     (case unpack_H_from buf 0 of
        Inl err \<Rightarrow> Inl err
      | Inr n \<Rightarrow>
          if n \<noteq> int (length sch) then Inl (ValueError SchemaMismatch)
          else (let bm_size = nullmap_size (nat n);
                    bm = take bm_size (drop 2 buf)
                in unpack_cols buf bm sch 0 (2 + bm_size) Map.empty))"

section \<open>Heap file (heapfile.py)\<close>

text \<open>
  The heap file is the byte string on disk.  \<open>f.seek(off)\<close> raises for a negative
  offset; \<open>f.read(n)\<close> returns the bytes there are, at most \<open>n\<close>; a write past the
  end extends the file, the gap reading as zero bytes.
\<close>

type_synonym heapfile = "byte list"

definition PAGE_SIZE :: int where
  "PAGE_SIZE = 4096"

definition HDR_SIZE :: int where
  "HDR_SIZE = 4"

definition SLOT_SIZE :: int where
  "SLOT_SIZE = 4"

definition file_read :: "heapfile \<Rightarrow> int \<Rightarrow> int \<Rightarrow> error + byte list" where
  "file_read f off n =
     (if off < 0 then Inl OSError else Inr (take (nat n) (drop (nat off) f)))"

definition file_write :: "heapfile \<Rightarrow> int \<Rightarrow> byte list \<Rightarrow> error + heapfile" where
  "file_write f off bs =
     (if off < 0 then Inl OSError
      else if bs = [] then Inr f
      else Inr (take (nat off) f @ replicate (nat off - length f) 0 @ bs
                @ drop (nat off + length bs) f))"

text \<open>The format \<open><HH\<close>: two unsigned 16-bit fields.\<close>

definition pack_HH :: "int \<Rightarrow> int \<Rightarrow> error + byte list" where
  "pack_HH x y =
     (case pack_H x of
        Inl err \<Rightarrow> Inl err
      | Inr bx \<Rightarrow> (case pack_H y of Inl err \<Rightarrow> Inl err | Inr by \<Rightarrow> Inr (bx @ by)))"

definition unpack_HH :: "byte list \<Rightarrow> error + int \<times> int" where
  "unpack_HH bs =
     (if length bs \<noteq> 4 then Inl StructError
      else Inr (le_int (take 2 bs), le_int (drop 2 bs)))"

subsection \<open>Page utilities\<close>

definition num_pages :: "heapfile \<Rightarrow> int" where
  "num_pages f = int (length f) div PAGE_SIZE"

definition page_base :: "int \<Rightarrow> int" where
  "page_base p = p * PAGE_SIZE"

definition read_hdr :: "heapfile \<Rightarrow> int \<Rightarrow> error + int \<times> int" where
  "read_hdr f p =
     (case file_read f (page_base p) HDR_SIZE of
        Inl err \<Rightarrow> Inl err
      | Inr bs \<Rightarrow> unpack_HH bs)"

text \<open>The seek comes before the packing of the fields.\<close>

definition write_hdr :: "heapfile \<Rightarrow> int \<Rightarrow> int \<Rightarrow> int \<Rightarrow> error + heapfile" where
  "write_hdr f p nslots data_end =
     (if page_base p < 0 then Inl OSError
      else (case pack_HH nslots data_end of
              Inl err \<Rightarrow> Inl err
            | Inr bs \<Rightarrow> file_write f (page_base p) bs))"

definition read_slot :: "heapfile \<Rightarrow> int \<Rightarrow> int \<Rightarrow> error + int \<times> int" where
  "read_slot f p s =
     (case file_read f (page_base p + HDR_SIZE + s * SLOT_SIZE) SLOT_SIZE of
        Inl err \<Rightarrow> Inl err
      | Inr bs \<Rightarrow> unpack_HH bs)"

definition write_slot :: "heapfile \<Rightarrow> int \<Rightarrow> int \<Rightarrow> int \<Rightarrow> int \<Rightarrow> error + heapfile" where
  "write_slot f p s off ln =
     (if page_base p + HDR_SIZE + s * SLOT_SIZE < 0 then Inl OSError
      else (case pack_HH off ln of
              Inl err \<Rightarrow> Inl err
            | Inr bs \<Rightarrow> file_write f (page_base p + HDR_SIZE + s * SLOT_SIZE) bs))"

text \<open>
  A mutating operation of the heap returns the file as it is when the operation ends
  and what the call did: \<open>Inl\<close> the exception, \<open>Inr\<close> the result.
\<close>

definition ensure_page :: "heapfile \<Rightarrow> int \<Rightarrow> heapfile \<times> (error + unit)" where
  "ensure_page f p =
     (if p < num_pages f then (f, Inr ())
      else (let f1 = f @ replicate (nat ((p - num_pages f + 1) * PAGE_SIZE)) 0
            in case write_hdr f1 p 0 PAGE_SIZE of
                 Inl err \<Rightarrow> (f1, Inl err)
               | Inr f2 \<Rightarrow> (f2, Inr ())))"

function ffs_loop :: "heapfile \<Rightarrow> int \<Rightarrow> int \<Rightarrow> int \<Rightarrow> error + int option" where
  "ffs_loop f p nslots s =
     (if s < nslots then
        (case read_slot f p s of
           Inl err \<Rightarrow> Inl err
         | Inr (off, ln) \<Rightarrow> if ln = 0 then Inr (Some s) else ffs_loop f p nslots (s + 1))
      else Inr None)"
  by pat_completeness auto
termination
  by (relation "measure (\<lambda>(f, p, nslots, s). nat (nslots - s))") auto

declare ffs_loop.simps [simp del]

definition find_free_slot :: "heapfile \<Rightarrow> int \<Rightarrow> int \<Rightarrow> error + int option" where
  "find_free_slot f p nslots = ffs_loop f p nslots 0"

definition free_bytes :: "int \<Rightarrow> int \<Rightarrow> bool \<Rightarrow> int" where
  "free_bytes nslots data_end reuse_slot =
     (let dir_end = HDR_SIZE + (nslots + (if reuse_slot then 0 else 1)) * SLOT_SIZE
      in max 0 (data_end - dir_end))"

subsection \<open>insert\<close>

text \<open>
  One pass of the loop \<open>for _ in range(2)\<close> up to its \<open>return\<close>: \<open>Inr (Some rid)\<close>
  when the blob was placed in page \<open>p\<close>, \<open>Inr None\<close> when the page has no room.
\<close>

definition place :: "heapfile \<Rightarrow> int \<Rightarrow> byte list \<Rightarrow> heapfile \<times> (error + RID option)" where
  "place f p blob =
     (case read_hdr f p of
        Inl err \<Rightarrow> (f, Inl err)
      | Inr (nslots, data_end) \<Rightarrow>
          (case find_free_slot f p nslots of
             Inl err \<Rightarrow> (f, Inl err)
           | Inr s_free \<Rightarrow>
               (let reuse = (s_free \<noteq> None)
                in if free_bytes nslots data_end reuse \<ge> int (length blob) then
                     (let s = (case s_free of Some x \<Rightarrow> x | None \<Rightarrow> nslots);
                          nslots' = (if reuse then nslots else nslots + 1)
                      in case (if \<not> reuse then write_hdr f p nslots' data_end else Inr f) of
                           Inl err \<Rightarrow> (f, Inl err)
                         | Inr f1 \<Rightarrow>
                             (let data_end' = data_end - int (length blob)
                              in case file_write f1 (page_base p + data_end') blob of
                                   Inl err \<Rightarrow> (f1, Inl err)
                                 | Inr f2 \<Rightarrow>
                                     (case write_slot f2 p s data_end' (int (length blob)) of
                                        Inl err \<Rightarrow> (f2, Inl err)
                                      | Inr f3 \<Rightarrow>
                                          (case write_hdr f3 p nslots' data_end' of
                                             Inl err \<Rightarrow> (f3, Inl err)
                                           | Inr f4 \<Rightarrow>
                                               (f4, Inr (Some \<lparr> page = p, slot = s \<rparr>))))))
                   else (f, Inr None))))"

text \<open>
  The loop itself, \<open>n\<close> passes left; after the last pass the code raises
  \<open>RuntimeError\<close>.
\<close>

fun attempts :: "nat \<Rightarrow> heapfile \<Rightarrow> int \<Rightarrow> byte list \<Rightarrow> heapfile \<times> (error + RID)" where
  "attempts 0 f p blob = (f, Inl RuntimeError)"
| "attempts (Suc n) f p blob =
     (case place f p blob of
        (f1, Inl err) \<Rightarrow> (f1, Inl err)
      | (f1, Inr (Some r)) \<Rightarrow> (f1, Inr r)
      | (f1, Inr None) \<Rightarrow>
          (let p' = num_pages f1
           in case ensure_page f1 p' of
                (f2, Inl err) \<Rightarrow> (f2, Inl err)
              | (f2, Inr u) \<Rightarrow> attempts n f2 p' blob))"

text \<open>\<open>HeapFile.insert\<close> from the packed row on.\<close>

definition insert_blob :: "heapfile \<Rightarrow> byte list \<Rightarrow> heapfile \<times> (error + RID)" where
  "insert_blob f blob =
     (if int (length blob) + HDR_SIZE + SLOT_SIZE > PAGE_SIZE then (f, Inl (ValueError RowTooLarge))
      else (case (if num_pages f = 0 then ensure_page f 0 else (f, Inr ())) of
              (f0, Inl err) \<Rightarrow> (f0, Inl err)
            | (f0, Inr u) \<Rightarrow> attempts 2 f0 (num_pages f0 - 1) blob))"

definition heap_insert :: "schema \<Rightarrow> heapfile \<Rightarrow> row \<Rightarrow> heapfile \<times> (error + RID)" where
  "heap_insert sch f r =
     (case pack_row r sch of
        Inl err \<Rightarrow> (f, Inl err)
      | Inr blob \<Rightarrow> insert_blob f blob)"

subsection \<open>read and delete\<close>


definition heap_delete :: "heapfile \<Rightarrow> RID \<Rightarrow> heapfile \<times> (error + bool)" where
  "heap_delete f r =
     (case read_hdr f (page r) of
        Inl err \<Rightarrow> (f, Inl err)
      | Inr (nslots, data_end) \<Rightarrow>
          if slot r < 0 \<or> slot r \<ge> nslots then (f, Inr False)
          else (case read_slot f (page r) (slot r) of
                  Inl err \<Rightarrow> (f, Inl err)
                | Inr (off, ln) \<Rightarrow>
                    if ln = 0 then (f, Inr False)
                    else (case write_slot f (page r) (slot r) off 0 of
                            Inl err \<Rightarrow> (f, Inl err)
                          | Inr f1 \<Rightarrow> (f1, Inr True))))"

subsection \<open>iter\_rids\<close>






section \<open>Sequential index file (lowlevel.py)\<close>

subsection \<open>Pointers\<close>

definition DELETED :: int where
  "DELETED = -1"

definition dptr :: "int \<Rightarrow> error + int" where
  "dptr i = (if i < 1 then Inl (ValueError PtrArg) else Inr i)"

definition aptr :: "int \<Rightarrow> error + int" where
  "aptr i = (if i < 1 then Inl (ValueError PtrArg) else Inr (- (i + 1)))"

definition is_end :: "int \<Rightarrow> bool" where
  "is_end p = (p = 0)"

definition loc :: "int \<Rightarrow> error + bool \<times> int" where
  "loc p = (if p = 0 \<or> p = DELETED then Inl (ValueError NoLocation)
            else if p > 0 then Inr (False, p) else Inr (True, - p - 1))"

subsection \<open>Entries and the file\<close>

record SFEntry =
  key :: int
  rid :: RID
  next_ptr :: int

definition deleted :: "SFEntry \<Rightarrow> bool" where
  "deleted e = (next_ptr e = DELETED)"

text \<open>
  \<open>SFEntry.pack\<close> uses the format \<open><iHHi\<close>: \<open>struct.pack\<close> raises when the key or
  the RID does not fit its field.  The pointer \<open>next_ptr\<close> is a position in the file,
  as the counters of the header are; the code computes it from the number of entries,
  and its 32-bit range is not modelled (it takes a file of 2^31 entries to leave it).
\<close>

definition packable :: "SFEntry \<Rightarrow> bool" where
  "packable e =
     (- (2 ^ 31) \<le> key e \<and> key e < 2 ^ 31 \<and>
      0 \<le> page (rid e) \<and> page (rid e) < 2 ^ 16 \<and>
      0 \<le> slot (rid e) \<and> slot (rid e) < 2 ^ 16)"

text \<open>
  The index file is its header (three integers) followed by 12-byte entry slots; every
  write of the code is a whole header or a whole entry at an aligned offset, so the file
  is modelled as the header fields and the list of entry slots after it.  The region D
  is slots \<open>1..main_count\<close>, the region A starts right after it.  The counters of the
  header hold only values the code computed from the number of entries written; like
  the pointers, they are unbounded integers here.
\<close>

record sfile =
  main_count :: int
  aux_count :: int
  head_ptr :: int
  ents :: "SFEntry list"

definition sf_empty :: sfile where
  "sf_empty = \<lparr> main_count = 0, aux_count = 0, head_ptr = 0, ents = [] \<rparr>"

definition hdr_set :: "sfile \<Rightarrow> int \<Rightarrow> int \<Rightarrow> int \<Rightarrow> sfile" where
  "hdr_set f m a h = f \<lparr> main_count := m, aux_count := a, head_ptr := h \<rparr>"

text \<open>
  \<open>_off_d\<close> and \<open>_off_a\<close> as the 1-based number of the entry slot the byte offset
  falls on: D(i) is slot i, A(i) is slot base + i.
\<close>

definition slot_no :: "bool \<Rightarrow> int \<Rightarrow> int \<Rightarrow> int" where
  "slot_no is_aux idx base = (if is_aux then base + idx else idx)"

text \<open>
  \<open>_read\<close>: a read past the end of the file returns too few bytes and
  \<open>struct.unpack\<close> raises.  The callers only pass indices from 1 on.
\<close>

definition sf_read :: "sfile \<Rightarrow> bool \<Rightarrow> int \<Rightarrow> int \<Rightarrow> error + SFEntry" where
  "sf_read f is_aux idx base =
     (let n = slot_no is_aux idx base
      in if 1 \<le> n \<and> n \<le> int (length (ents f)) then Inr (ents f ! nat (n - 1))
         else Inl StructError)"

definition zero_entry :: SFEntry where
  "zero_entry = \<lparr> key = 0, rid = \<lparr> page = 0, slot = 0 \<rparr>, next_ptr = 0 \<rparr>"

text \<open>A write at or past the end of the file extends it; a gap reads as zero bytes.\<close>

definition put :: "nat \<Rightarrow> SFEntry \<Rightarrow> SFEntry list \<Rightarrow> SFEntry list" where
  "put i e xs =
     (if i < length xs then xs[i := e]
      else xs @ replicate (i - length xs) zero_entry @ [e])"

definition sf_write :: "sfile \<Rightarrow> bool \<Rightarrow> int \<Rightarrow> SFEntry \<Rightarrow> int \<Rightarrow> error + sfile" where
  "sf_write f is_aux idx e base =
     (let n = slot_no is_aux idx base
      in if \<not> packable e then Inl StructError
         else if n < 1 then Inl OSError
         else Inr (f \<lparr> ents := put (nat (n - 1)) e (ents f) \<rparr>))"

subsection \<open>Binary search in D\<close>

function lb_loop :: "sfile \<Rightarrow> int \<Rightarrow> int \<Rightarrow> int \<Rightarrow> int \<Rightarrow> int \<Rightarrow> error + int" where
  "lb_loop f k m l r ans =
     (if l \<le> r then
        (let mid = (l + r) div 2
         in case sf_read f False mid m of
              Inl err \<Rightarrow> Inl err
            | Inr e \<Rightarrow> if key e \<ge> k then lb_loop f k m l (mid - 1) mid
                       else lb_loop f k m (mid + 1) r ans)
      else Inr ans)"
  by pat_completeness auto
termination
  by (relation "measure (\<lambda>(f, k, m, l, r, ans). nat (r - l + 1))") auto

declare lb_loop.simps [simp del]

definition sf_lb :: "sfile \<Rightarrow> int \<Rightarrow> error + int" where
  "sf_lb f k = (let m = main_count f in lb_loop f k m 1 m (m + 1))"

text \<open>
  The loop \<open>while j >= 1\<close> of insert and delete\_key: step back over tombstones in D;
  the result is the final value of \<open>j\<close>.
\<close>

function back_scan :: "sfile \<Rightarrow> int \<Rightarrow> int \<Rightarrow> error + int" where
  "back_scan f m j =
     (if j \<ge> 1 then
        (case sf_read f False j m of
           Inl err \<Rightarrow> Inl err
         | Inr dj \<Rightarrow> if \<not> deleted dj then Inr j else back_scan f m (j - 1))
      else Inr j)"
  by pat_completeness auto
termination
  by (relation "measure (\<lambda>(f, m, j). nat j)") auto

declare back_scan.simps [simp del]

subsection \<open>reorganize\<close>

text \<open>The walk of reorganize, cut off after \<open>cap\<close> steps.\<close>

function collect :: "sfile \<Rightarrow> int \<Rightarrow> int \<Rightarrow> int \<Rightarrow> int \<Rightarrow> SFEntry list \<Rightarrow> error + SFEntry list" where
  "collect f base cur seen cap out =
     (if \<not> is_end cur \<and> seen < cap then
        (case loc cur of
           Inl err \<Rightarrow> Inl err
         | Inr (a1, i1) \<Rightarrow>
             (case sf_read f a1 i1 base of
                Inl err \<Rightarrow> Inl err
              | Inr e \<Rightarrow> collect f base (next_ptr e) (seen + 1) cap
                           (if \<not> deleted e then out @ [e] else out)))
      else Inr out)"
  by pat_completeness auto
termination
  by (relation "measure (\<lambda>(f, base, cur, seen, cap, out). nat (cap - seen))") auto

declare collect.simps [simp del]

text \<open>
  The dump loop \<open>for i, e in enumerate(out, start=1)\<close>.  The entries were decoded
  from the file and the new pointer is at most the number of entries, so
  \<open>e.pack()\<close> does not raise here; \<open>dptr(i + 1)\<close> has \<open>i \<ge> 1\<close>.
\<close>

fun dump :: "sfile \<Rightarrow> int \<Rightarrow> int \<Rightarrow> SFEntry list \<Rightarrow> sfile" where
  "dump f i newm [] = f"
| "dump f i newm (e # es) =
     dump (f \<lparr> ents := put (nat (i - 1)) (e \<lparr> next_ptr := (if i < newm then i + 1 else 0) \<rparr>) (ents f) \<rparr>)
          (i + 1) newm es"

definition sf_reorganize :: "sfile \<Rightarrow> error + sfile" where
  "sf_reorganize f =
     (let m = main_count f; a = aux_count f; h = head_ptr f
      in if h = 0 then Inr (hdr_set f 0 0 0)
         else (case collect f m h 0 (m + a + 8) [] of
                 Inl err \<Rightarrow> Inl err
               | Inr out \<Rightarrow>
                   (let newm = int (length out)
                    in Inr (hdr_set (dump f 1 newm out) newm 0 (if newm \<ge> 1 then 1 else 0)))))"

text \<open>
  \<open>int(math.log2(x))\<close> for an integer \<open>x \<ge> 1\<close>: the floor of the binary logarithm
  (the floating-point logarithm is exact at powers of two and far enough below the next
  integer elsewhere, for every count a file can hold).
\<close>

fun ilog2 :: "nat \<Rightarrow> nat" where
  "ilog2 n = (if n < 2 then 0 else Suc (ilog2 (n div 2)))"

declare ilog2.simps [simp del]

definition sf_maybe_reorg :: "sfile \<Rightarrow> error + sfile" where
  "sf_maybe_reorg f =
     (let m = main_count f; a = aux_count f;
          k = int (ilog2 (nat (max 1 (m + 1))))
      in if a > k then sf_reorganize f else Inr f)"


subsection \<open>insert\<close>

text \<open>
  A mutating operation returns the file as it is when the operation ends, together with
  what the call did: \<open>Inl\<close> the exception it raised, \<open>Inr\<close> its result.  The walks
  along the logical list have no bound in the code, so they are partial functions:
  \<open>None\<close> means that the loop does not end.
\<close>

definition finish :: "sfile \<Rightarrow> sfile \<times> (error + unit)" where
  "finish f = (case sf_maybe_reorg f of Inl err \<Rightarrow> (f, Inl err) | Inr f' \<Rightarrow> (f', Inr ()))"

text \<open>Step 5: advance to the first live node whose key is not below the new key.\<close>

partial_function (option) ins_walk ::
  "sfile \<Rightarrow> int \<Rightarrow> int \<Rightarrow> int \<Rightarrow> int \<Rightarrow> (error + int \<times> int) option" where
  "ins_walk f m k prev_ptr cur_ptr =
     (if is_end cur_ptr then Some (Inr (prev_ptr, cur_ptr))
      else (case loc cur_ptr of
              Inl err \<Rightarrow> Some (Inl err)
            | Inr (a1, i1) \<Rightarrow>
                (case sf_read f a1 i1 m of
                   Inl err \<Rightarrow> Some (Inl err)
                 | Inr node \<Rightarrow>
                     if deleted node then ins_walk f m k prev_ptr (next_ptr node)
                     else if key node < k then ins_walk f m k cur_ptr (next_ptr node)
                     else Some (Inr (prev_ptr, cur_ptr)))))"

declare ins_walk.simps [code]

text \<open>Step 6 and the trailing \<open>_maybe_reorg\<close>; \<open>a\<close> is the incremented count.\<close>

definition ins_splice ::
  "sfile \<Rightarrow> SFEntry \<Rightarrow> int \<Rightarrow> int \<Rightarrow> int \<Rightarrow> int \<Rightarrow> int \<Rightarrow> int \<Rightarrow> int \<Rightarrow> sfile \<times> (error + unit)" where
  "ins_splice f e idx newp m a h prev_ptr cur_ptr =
     (case sf_write f True idx (e \<lparr> next_ptr := cur_ptr \<rparr>) m of
        Inl err \<Rightarrow> (f, Inl err)
      | Inr f2 \<Rightarrow>
          if prev_ptr = 0 then finish (hdr_set f2 m a newp)
          else (case loc prev_ptr of
                  Inl err \<Rightarrow> (f2, Inl err)
                | Inr (pa, pi) \<Rightarrow>
                    (case sf_read f2 pa pi m of
                       Inl err \<Rightarrow> (f2, Inl err)
                     | Inr prev \<Rightarrow>
                         (case sf_write f2 pa pi (prev \<lparr> next_ptr := newp \<rparr>) m of
                            Inl err \<Rightarrow> (f2, Inl err)
                          | Inr f3 \<Rightarrow> finish (hdr_set f3 m a h)))))"

text \<open>Steps 4 to 7, once the predecessor \<open>j\<close> in D is known.\<close>

definition ins_link ::
  "sfile \<Rightarrow> SFEntry \<Rightarrow> int \<Rightarrow> int \<Rightarrow> int \<Rightarrow> int \<Rightarrow> int \<Rightarrow> int \<Rightarrow> (sfile \<times> (error + unit)) option" where
  "ins_link f e idx newp m a h j =
     (if j \<ge> 1 then
        (case dptr j of
           Inl err \<Rightarrow> Some (f, Inl err)
         | Inr prev_ptr \<Rightarrow>
             (case sf_read f False j m of
                Inl err \<Rightarrow> Some (f, Inl err)
              | Inr dj \<Rightarrow>
                  (case ins_walk f m (key e) prev_ptr (next_ptr dj) of
                     None \<Rightarrow> None
                   | Some (Inl err) \<Rightarrow> Some (f, Inl err)
                   | Some (Inr (pp, cp)) \<Rightarrow> Some (ins_splice f e idx newp m a h pp cp))))
      else
        (case loc h of
           Inl err \<Rightarrow> Some (f, Inl err)
         | Inr (ha, hi) \<Rightarrow>
             (case sf_read f ha hi m of
                Inl err \<Rightarrow> Some (f, Inl err)
              | Inr head_entry \<Rightarrow>
                  if key e \<le> key head_entry then
                    (case sf_write f True idx (e \<lparr> next_ptr := h \<rparr>) m of
                       Inl err \<Rightarrow> Some (f, Inl err)
                     | Inr f2 \<Rightarrow> Some (finish (hdr_set f2 m a newp)))
                  else
                    (case ins_walk f m (key e) 0 h of
                       None \<Rightarrow> None
                     | Some (Inl err) \<Rightarrow> Some (f, Inl err)
                     | Some (Inr (pp, cp)) \<Rightarrow> Some (ins_splice f e idx newp m a h pp cp)))))"

definition sf_insert :: "sfile \<Rightarrow> SFEntry \<Rightarrow> (sfile \<times> (error + unit)) option" where
  "sf_insert f e0 =
     (let m = main_count f; a = aux_count f; h = head_ptr f;
          idx = a + 1;
          e = e0 \<lparr> next_ptr := 0 \<rparr>
      in case sf_write f True idx e m of
           Inl err \<Rightarrow> Some (f, Inl err)
         | Inr f1 \<Rightarrow>
             (case aptr idx of
                Inl err \<Rightarrow> Some (f1, Inl err)
              | Inr newp \<Rightarrow>
                  if h = 0 then Some (finish (hdr_set f1 m (a + 1) newp))
                  else (case sf_lb f1 (key e) of
                          Inl err \<Rightarrow> Some (f1, Inl err)
                        | Inr lb \<Rightarrow>
                            (case back_scan f1 m (min (lb - 1) m) of
                               Inl err \<Rightarrow> Some (f1, Inl err)
                             | Inr j \<Rightarrow> ins_link f1 e idx newp m (a + 1) h j))))"

subsection \<open>search and range\_search\<close>

text \<open>
  The \<open>while j >= 1 ... else\<close> loop of search and range\_search: the successor of the
  nearest live entry of D at or below \<open>j\<close>, or the head.
\<close>

function start_scan :: "sfile \<Rightarrow> int \<Rightarrow> int \<Rightarrow> int \<Rightarrow> error + int" where
  "start_scan f m h j =
     (if j \<ge> 1 then
        (case sf_read f False j m of
           Inl err \<Rightarrow> Inl err
         | Inr dj \<Rightarrow> if \<not> deleted dj then Inr (next_ptr dj) else start_scan f m h (j - 1))
      else Inr h)"
  by pat_completeness auto
termination
  by (relation "measure (\<lambda>(f, m, h, j). nat j)") auto

declare start_scan.simps [simp del]

partial_function (option) search_walk ::
  "sfile \<Rightarrow> int \<Rightarrow> int \<Rightarrow> int \<Rightarrow> RID list \<Rightarrow> (error + RID list) option" where
  "search_walk f m k cur out =
     (if is_end cur then Some (Inr out)
      else (case loc cur of
              Inl err \<Rightarrow> Some (Inl err)
            | Inr (a1, i1) \<Rightarrow>
                (case sf_read f a1 i1 m of
                   Inl err \<Rightarrow> Some (Inl err)
                 | Inr node \<Rightarrow>
                     if deleted node then search_walk f m k (next_ptr node) out
                     else if key node > k then Some (Inr out)
                     else search_walk f m k (next_ptr node)
                            (if key node = k then out @ [rid node] else out))))"

declare search_walk.simps [code]

definition search_slow :: "sfile \<Rightarrow> int \<Rightarrow> int \<Rightarrow> int \<Rightarrow> int \<Rightarrow> (error + RID list) option" where
  "search_slow f k m h lb =
     (case start_scan f m h (min (lb - 1) m) of
        Inl err \<Rightarrow> Some (Inl err)
      | Inr start \<Rightarrow> search_walk f m k start [])"

definition sf_search :: "sfile \<Rightarrow> int \<Rightarrow> (error + RID list) option" where
  "sf_search f k =
     (let m = main_count f; h = head_ptr f
      in if h = 0 then Some (Inr [])
         else (case sf_lb f k of
                 Inl err \<Rightarrow> Some (Inl err)
               | Inr lb \<Rightarrow>
                   if 1 \<le> lb \<and> lb \<le> m then
                     (case sf_read f False lb m of
                        Inl err \<Rightarrow> Some (Inl err)
                      | Inr e \<Rightarrow>
                          if \<not> deleted e \<and> key e = k then Some (Inr [rid e])
                          else search_slow f k m h lb)
                   else search_slow f k m h lb))"

partial_function (option) range_walk ::
  "sfile \<Rightarrow> int \<Rightarrow> int \<Rightarrow> int \<Rightarrow> int \<Rightarrow> SFEntry list \<Rightarrow> (error + SFEntry list) option" where
  "range_walk f m lo hi cur out =
     (if is_end cur then Some (Inr out)
      else (case loc cur of
              Inl err \<Rightarrow> Some (Inl err)
            | Inr (a1, i1) \<Rightarrow>
                (case sf_read f a1 i1 m of
                   Inl err \<Rightarrow> Some (Inl err)
                 | Inr node \<Rightarrow>
                     if deleted node then range_walk f m lo hi (next_ptr node) out
                     else if key node > hi then Some (Inr out)
                     else range_walk f m lo hi (next_ptr node)
                            (if key node \<ge> lo then out @ [node] else out))))"

declare range_walk.simps [code]

definition sf_range_search :: "sfile \<Rightarrow> int \<Rightarrow> int \<Rightarrow> (error + SFEntry list) option" where
  "sf_range_search f lo0 hi0 =
     (let lo = (if lo0 > hi0 then hi0 else lo0);
          hi = (if lo0 > hi0 then lo0 else hi0);
          m = main_count f; h = head_ptr f
      in if h = 0 then Some (Inr [])
         else (case sf_lb f lo of
                 Inl err \<Rightarrow> Some (Inl err)
               | Inr lb \<Rightarrow>
                   (case start_scan f m h (min (lb - 1) m) of
                      Inl err \<Rightarrow> Some (Inl err)
                    | Inr start \<Rightarrow> range_walk f m lo hi start [])))"

subsection \<open>delete\_key\<close>

definition rid_matches :: "RID option \<Rightarrow> SFEntry \<Rightarrow> bool" where
  "rid_matches r node =
     (case r of None \<Rightarrow> True
      | Some x \<Rightarrow> (page (rid node), slot (rid node)) = (page x, slot x))"

text \<open>
  Unlink the node from the logical list: the new head, or the predecessor rewritten.
\<close>

definition unlink :: "sfile \<Rightarrow> int \<Rightarrow> int \<Rightarrow> int \<Rightarrow> int \<Rightarrow> error + sfile \<times> int" where
  "unlink f m h prev_ptr nxt =
     (if prev_ptr = 0 then Inr (f, nxt)
      else (case loc prev_ptr of
              Inl err \<Rightarrow> Inl err
            | Inr (pa, pi) \<Rightarrow>
                (case sf_read f pa pi m of
                   Inl err \<Rightarrow> Inl err
                 | Inr prev \<Rightarrow>
                     (case sf_write f pa pi (prev \<lparr> next_ptr := nxt \<rparr>) m of
                        Inl err \<Rightarrow> Inl err
                      | Inr f1 \<Rightarrow> Inr (f1, h)))))"

partial_function (option) del_walk ::
  "sfile \<Rightarrow> int \<Rightarrow> int \<Rightarrow> RID option \<Rightarrow> int \<Rightarrow> int \<Rightarrow> int \<Rightarrow> int
     \<Rightarrow> (sfile \<times> (error + int \<times> int)) option" where
  "del_walk f m k r prev_ptr cur_ptr removed h =
     (if is_end cur_ptr then Some (f, Inr (removed, h))
      else (case loc cur_ptr of
              Inl err \<Rightarrow> Some (f, Inl err)
            | Inr (a1, i1) \<Rightarrow>
                (case sf_read f a1 i1 m of
                   Inl err \<Rightarrow> Some (f, Inl err)
                 | Inr node \<Rightarrow>
                     if key node > k then Some (f, Inr (removed, h))
                     else if key node = k \<and> rid_matches r node then
                       (case unlink f m h prev_ptr (next_ptr node) of
                          Inl err \<Rightarrow> Some (f, Inl err)
                        | Inr (f1, h1) \<Rightarrow>
                            (case sf_write f1 a1 i1 (node \<lparr> next_ptr := DELETED \<rparr>) m of
                               Inl err \<Rightarrow> Some (f1, Inl err)
                             | Inr f2 \<Rightarrow>
                                 if r \<noteq> None then Some (f2, Inr (removed + 1, h1))
                                 else del_walk f2 m k r prev_ptr (next_ptr node) (removed + 1) h1))
                     else del_walk f m k r cur_ptr (next_ptr node) removed h)))"

declare del_walk.simps [code]

definition sf_delete_key :: "sfile \<Rightarrow> int \<Rightarrow> RID option \<Rightarrow> (sfile \<times> (error + int)) option" where
  "sf_delete_key f k r =
     (let m = main_count f; a = aux_count f; h = head_ptr f
      in if h = 0 then Some (f, Inr 0)
         else (case sf_lb f k of
                 Inl err \<Rightarrow> Some (f, Inl err)
               | Inr lb \<Rightarrow>
                   (case back_scan f m (min (lb - 1) m) of
                      Inl err \<Rightarrow> Some (f, Inl err)
                    | Inr j \<Rightarrow>
                        (case (if j \<ge> 1 then dptr j else Inr 0) of
                           Inl err \<Rightarrow> Some (f, Inl err)
                         | Inr prev_ptr \<Rightarrow>
                             (case (if j \<ge> 1 then map_sum id next_ptr (sf_read f False j m)
                                    else Inr h) of
                                Inl err \<Rightarrow> Some (f, Inl err)
                              | Inr cur_ptr \<Rightarrow>
                                  (case del_walk f m k r prev_ptr cur_ptr 0 h of
                                     None \<Rightarrow> None
                                   | Some (f', Inl err) \<Rightarrow> Some (f', Inl err)
                                   | Some (f', Inr (removed, h')) \<Rightarrow>
                                       Some (hdr_set f' m a h', Inr removed)))))))"

section \<open>Index adaptor and executor (index.py, executor.py)\<close>

text \<open>
  \<open>SequentialFileIndex\<close>: the column it indexes and its index file.  The executor
  holds the heap of the table, its schema and the registered indexes.
\<close>

record index =
  key_col :: string
  sf :: sfile






section \<open>The logical list of the index and its invariant\<close>

text \<open>
  A pointer is valid when it names an entry of the counted regions: \<open>1..main_count\<close>
  in D, \<open>-2 .. -(aux_count + 1)\<close> in A.  \<open>pos_of\<close> is the place of that entry in the
  list of entry slots.
\<close>

definition valid_ptr :: "sfile \<Rightarrow> int \<Rightarrow> bool" where
  "valid_ptr f p =
     ((1 \<le> p \<and> p \<le> main_count f) \<or> (p \<le> - 2 \<and> - p - 1 \<le> aux_count f))"

definition pos_of :: "sfile \<Rightarrow> int \<Rightarrow> nat" where
  "pos_of f p = (if p > 0 then nat (p - 1) else nat (main_count f + (- p - 1) - 1))"

definition ent_at :: "sfile \<Rightarrow> int \<Rightarrow> SFEntry" where
  "ent_at f p = ents f ! pos_of f p"

definition key_at :: "sfile \<Rightarrow> int \<Rightarrow> int" where
  "key_at f p = key (ent_at f p)"

definition all_ptrs :: "sfile \<Rightarrow> int list" where
  "all_ptrs f =
     map int [1..<Suc (nat (main_count f))]
     @ map (\<lambda>i. - int i - 1) [1..<Suc (nat (aux_count f))]"

text \<open>The live entries: the entries of the counted regions that are not tombstones.\<close>

definition live_ptrs :: "sfile \<Rightarrow> int list" where
  "live_ptrs f = filter (\<lambda>p. \<not> deleted (ent_at f p)) (all_ptrs f)"

text \<open>
  Following \<open>next_ptr\<close> from a pointer, skipping tombstones, for at most \<open>n\<close> steps:
  the pointers of the entries met, or \<open>None\<close> when the walk leaves the counted regions
  or does not reach the end mark 0 in time.
\<close>

primrec follow :: "sfile \<Rightarrow> int \<Rightarrow> nat \<Rightarrow> int list option" where
  "follow f cur 0 = (if cur = 0 then Some [] else None)"
| "follow f cur (Suc n) =
     (if cur = 0 then Some []
      else if \<not> valid_ptr f cur then None
      else if deleted (ent_at f cur) then follow f (next_ptr (ent_at f cur)) n
      else map_option ((#) cur) (follow f (next_ptr (ent_at f cur)) n))"

definition logical_list :: "sfile \<Rightarrow> int list option" where
  "logical_list f = follow f (head_ptr f) (nat (main_count f + aux_count f))"

text \<open>
  The invariant of the logical list: the walk from the head meets every live entry
  exactly once, in non-decreasing key order.
\<close>

definition logical_ok :: "sfile \<Rightarrow> bool" where
  "logical_ok f =
     (case logical_list f of
        None \<Rightarrow> False
      | Some ps \<Rightarrow>
          distinct ps \<and> set ps = set (live_ptrs f) \<and> sorted (map (key_at f) ps))"

text \<open>
  A well-formed index file: the counted regions lie within the file, every entry slot
  holds values of its fields' ranges (it was decoded from 12 bytes), D read
  positionally is sorted by key, and the logical list is in order.
\<close>

definition wf :: "sfile \<Rightarrow> bool" where
  "wf f =
     (0 \<le> main_count f \<and> 0 \<le> aux_count f
      \<and> main_count f + aux_count f \<le> int (length (ents f))
      \<and> list_all packable (ents f)
      \<and> sorted (map key (take (nat (main_count f)) (ents f)))
      \<and> logical_ok f)"

text \<open>
  The states of the index file that sequences of insert, delete\_key and reorganize
  lead to from the empty index; a call that raises leaves the file as it is then.
\<close>

inductive reachable :: "sfile \<Rightarrow> bool" where
  reach_empty: "reachable sf_empty"
| reach_insert: "reachable f \<Longrightarrow> sf_insert f e = Some (f', r) \<Longrightarrow> reachable f'"
| reach_delete: "reachable f \<Longrightarrow> sf_delete_key f k rd = Some (f', r) \<Longrightarrow> reachable f'"
| reach_reorganize: "reachable f \<Longrightarrow> sf_reorganize f = Inr f' \<Longrightarrow> reachable f'"

text \<open>
  A segment of the logical list: the pointers \<open>ps\<close> lead from \<open>c\<close> to \<open>d\<close>, each
  one valid and live.
\<close>

fun seg :: "sfile \<Rightarrow> int \<Rightarrow> int list \<Rightarrow> int \<Rightarrow> bool" where
  "seg f c [] d = (c = d)"
| "seg f c (p # ps) d =
     (c = p \<and> p \<noteq> 0 \<and> valid_ptr f p \<and> \<not> deleted (ent_at f p)
      \<and> seg f (next_ptr (ent_at f p)) ps d)"

text \<open>
  The entries as the dump loop of reorganize leaves them: entry number \<open>i\<close> points to
  \<open>i + 1\<close>, the last one to the end mark.
\<close>

fun relink :: "int \<Rightarrow> int \<Rightarrow> SFEntry list \<Rightarrow> SFEntry list" where
  "relink i n [] = []"
| "relink i n (e # es) =
     e \<lparr> next_ptr := (if i < n then i + 1 else 0) \<rparr> # relink (i + 1) n es"

definition linked :: "nat \<Rightarrow> SFEntry list \<Rightarrow> bool" where
  "linked n xs =
     (n \<le> length xs \<and> (\<forall>k < n. next_ptr (xs ! k) = (if Suc k < n then int k + 2 else 0)))"

section \<open>The page invariant of the heap\<close>

text \<open>
  A page of the file is in order when it lies within the file and its header obeys
  \<open>HDR_SIZE + nslots * SLOT_SIZE \<le> data_end \<le> PAGE_SIZE\<close>; the heap is in order when
  all its pages are.
\<close>

definition page_ok :: "heapfile \<Rightarrow> int \<Rightarrow> bool" where
  "page_ok f p =
     (0 \<le> p \<and> p < num_pages f
      \<and> (case read_hdr f p of
            Inl err \<Rightarrow> False
          | Inr (nslots, data_end) \<Rightarrow>
              HDR_SIZE + nslots * SLOT_SIZE \<le> data_end \<and> data_end \<le> PAGE_SIZE))"

definition heap_ok :: "heapfile \<Rightarrow> bool" where
  "heap_ok f = list_all (page_ok f) (map int [0..<nat (num_pages f)])"

text \<open>A RID names a live row: its page exists, its slot is in the directory and in use.\<close>

definition live_rid :: "heapfile \<Rightarrow> RID \<Rightarrow> bool" where
  "live_rid f r =
     (0 \<le> page r \<and> page r < num_pages f
      \<and> (case read_hdr f (page r) of
            Inl err \<Rightarrow> False
          | Inr (nslots, data_end) \<Rightarrow>
              0 \<le> slot r \<and> slot r < nslots
              \<and> (case read_slot f (page r) (slot r) of
                    Inl err \<Rightarrow> False
                  | Inr (off, ln) \<Rightarrow> ln \<noteq> 0)))"

text \<open>
  The free bytes of page \<open>p\<close> as insert computes them, a free slot being reused when
  there is one.
\<close>

definition page_free :: "heapfile \<Rightarrow> int \<Rightarrow> error + int" where
  "page_free f p =
     (case read_hdr f p of
        Inl err \<Rightarrow> Inl err
      | Inr (nslots, data_end) \<Rightarrow>
          (case find_free_slot f p nslots of
             Inl err \<Rightarrow> Inl err
           | Inr s_free \<Rightarrow> Inr (free_bytes nslots data_end (s_free \<noteq> None))))"

text \<open>
  The free bytes of a page in the words of the specification, independently of how insert
  computes them: a slot is free when its length is 0; the directory ends after the
  \<open>nslots\<close> slots of the page, and after one more slot when none of them is free (the
  new row then needs a slot of its own); the free bytes are \<open>data_end\<close> minus the end of
  the directory.  The row goes to the first free slot, or to slot \<open>nslots\<close> when there is
  none.
\<close>

definition slot_is_free :: "heapfile \<Rightarrow> int \<Rightarrow> int \<Rightarrow> bool" where
  "slot_is_free f p s = (case read_slot f p s of Inl err \<Rightarrow> False | Inr (off, ln) \<Rightarrow> ln = 0)"

definition free_slots :: "heapfile \<Rightarrow> int \<Rightarrow> int \<Rightarrow> int list" where
  "free_slots f p nslots = filter (slot_is_free f p) (map int [0..<nat nslots])"

definition spec_free :: "heapfile \<Rightarrow> int \<Rightarrow> int" where
  "spec_free f p =
     (case read_hdr f p of
        Inl err \<Rightarrow> 0
      | Inr (nslots, data_end) \<Rightarrow>
          (if free_slots f p nslots = [] then data_end - (4 + (nslots + 1) * 4)
           else data_end - (4 + nslots * 4)))"

definition spec_slot :: "heapfile \<Rightarrow> int \<Rightarrow> int" where
  "spec_slot f p =
     (case read_hdr f p of
        Inl err \<Rightarrow> 0
      | Inr (nslots, data_end) \<Rightarrow>
          (case free_slots f p nslots of [] \<Rightarrow> nslots | s # rest \<Rightarrow> s))"

text \<open>The row encoded as \<open>blob\<close> is stored at the RID: the slot is live and names the bytes.\<close>

definition stored :: "heapfile \<Rightarrow> RID \<Rightarrow> byte list \<Rightarrow> bool" where
  "stored f r blob =
     (live_rid f r
      \<and> (case read_slot f (page r) (slot r) of
            Inl err \<Rightarrow> False
          | Inr (off, ln) \<Rightarrow>
              ln = int (length blob)
              \<and> file_read f (page_base (page r) + off) ln = Inr blob))"

text \<open>The file is a whole number of pages.\<close>

definition aligned :: "heapfile \<Rightarrow> bool" where
  "aligned f = (int (length f) = num_pages f * PAGE_SIZE)"

text \<open>
  The heap files that inserts and deletes lead to from the empty file, for a table of
  schema \<open>sch\<close>; a call that raises leaves the file as it is then.
\<close>

inductive heap_reachable :: "schema \<Rightarrow> heapfile \<Rightarrow> bool" for sch :: schema where
  hreach_empty: "heap_reachable sch []"
| hreach_insert: "heap_reachable sch f \<Longrightarrow> heap_insert sch f rw = (f', r) \<Longrightarrow> heap_reachable sch f'"
| hreach_delete: "heap_reachable sch f \<Longrightarrow> heap_delete f rd = (f', r) \<Longrightarrow> heap_reachable sch f'"

section \<open>Rows that fit their schema\<close>

text \<open>
  A string value of the row is the UTF-8 encoding of a Python \<open>str\<close>, and a value in a
  \<open>VARCHAR(N)\<close> column is not longer than its bound, so that \<open>pack_row\<close> does not cut it.
\<close>

definition col_fits :: "row \<Rightarrow> string \<times> string \<Rightarrow> bool" where
  "col_fits r c =
     (case row_get r (fst c) of
        VStr b \<Rightarrow> utf8_ok b \<and> (startswith (snd c) ''VARCHAR'' \<longrightarrow> length b \<le> varchar_max (snd c))
      | _ \<Rightarrow> True)"

definition row_fits :: "row \<Rightarrow> schema \<Rightarrow> bool" where
  "row_fits r sch = list_all (col_fits r) sch"

text \<open>
  The row with missing columns normalized to null: the columns of the schema, each with
  the value the row gives it, \<open>None\<close> when the row has none.
\<close>

definition normalized :: "row \<Rightarrow> schema \<Rightarrow> row" where
  "normalized r sch = (\<lambda>name. if name \<in> fst ` set sch then Some (row_get r name) else None)"




section \<open>Equal keys and search\<close>

text \<open>
  C1.  After two inserts with the same key the spec has \<open>search\<close> return both RIDs,
  the newer one first.  Run on the empty index: the first insert of key 15 (RID (0,1))
  reorganizes at once, so the entry lands in D; the second insert of key 15 (RID (0,3))
  is linked in front of it in A; \<open>search 15\<close> then takes the direct hit in D and
  returns the older RID alone.
\<close>

theorem search_equal_keys_direct_hit:
  "sf_insert sf_empty \<lparr> key = 15, rid = \<lparr> page = 0, slot = 1 \<rparr>, next_ptr = 0 \<rparr>
     = Some (\<lparr> main_count = 1, aux_count = 0, head_ptr = 1,
               ents = [\<lparr> key = 15, rid = \<lparr> page = 0, slot = 1 \<rparr>, next_ptr = 0 \<rparr>] \<rparr>, Inr ())
   \<and> sf_insert \<lparr> main_count = 1, aux_count = 0, head_ptr = 1,
               ents = [\<lparr> key = 15, rid = \<lparr> page = 0, slot = 1 \<rparr>, next_ptr = 0 \<rparr>] \<rparr>
        \<lparr> key = 15, rid = \<lparr> page = 0, slot = 3 \<rparr>, next_ptr = 0 \<rparr>
     = Some (\<lparr> main_count = 1, aux_count = 1, head_ptr = - 2,
               ents = [\<lparr> key = 15, rid = \<lparr> page = 0, slot = 1 \<rparr>, next_ptr = 0 \<rparr>,
                       \<lparr> key = 15, rid = \<lparr> page = 0, slot = 3 \<rparr>, next_ptr = 1 \<rparr>] \<rparr>, Inr ())
   \<and> sf_search \<lparr> main_count = 1, aux_count = 1, head_ptr = - 2,
               ents = [\<lparr> key = 15, rid = \<lparr> page = 0, slot = 1 \<rparr>, next_ptr = 0 \<rparr>,
                       \<lparr> key = 15, rid = \<lparr> page = 0, slot = 3 \<rparr>, next_ptr = 1 \<rparr>] \<rparr> 15
     = Some (Inr [\<lparr> page = 0, slot = 1 \<rparr>])"
  by code_simp

section \<open>Reading and writing entries\<close>

lemma length_put: "length (put k e xs) = max (length xs) (Suc k)"
  by (auto simp: put_def)

lemma put_eq: "k \<le> length xs \<Longrightarrow> put k e xs = take k xs @ e # drop (Suc k) xs"
  by (auto simp: put_def upd_conv_take_nth_drop)

lemma nth_put_same: "k \<le> length xs \<Longrightarrow> put k e xs ! k = e"
  by (auto simp: put_def nth_append)

lemma nth_put_other: "k \<le> length xs \<Longrightarrow> j \<noteq> k \<Longrightarrow> j < length xs \<Longrightarrow> put k e xs ! j = xs ! j"
  by (auto simp: put_def nth_append)

lemma take_put: "n \<le> k \<Longrightarrow> n \<le> length xs \<Longrightarrow> take n (put k e xs) = take n xs"
  by (auto simp: put_def)

lemma list_all_put:
  assumes "list_all P xs" "P e" "P zero_entry"
  shows "list_all P (put k e xs)"
proof (cases "k < length xs")
  case True
  have "set (xs[k := e]) \<subseteq> insert e (set xs)" by (rule set_update_subset_insert)
  with assms True show ?thesis by (auto simp: put_def list_all_iff)
next
  case False
  with assms show ?thesis by (auto simp: put_def list_all_iff)
qed

lemma list_all_update:
  assumes "list_all P xs" "P e"
  shows "list_all P (xs[i := e])"
proof -
  have "set (xs[i := e]) \<subseteq> insert e (set xs)" by (rule set_update_subset_insert)
  with assms show ?thesis by (auto simp: list_all_iff)
qed

lemma packable_zero: "packable zero_entry"
  by (simp add: packable_def zero_entry_def)

lemma packable_next [simp]: "packable (e \<lparr> next_ptr := n \<rparr>) = packable e"
  by (simp add: packable_def)

lemma valid_ptr_nz: "valid_ptr f p \<Longrightarrow> p \<noteq> 0 \<and> p \<noteq> - 1"
  by (auto simp: valid_ptr_def)

lemma pos_of_bound:
  "valid_ptr f p \<Longrightarrow> 0 \<le> main_count f \<Longrightarrow> 0 \<le> aux_count f \<Longrightarrow>
   int (pos_of f p) < main_count f + aux_count f"
  unfolding valid_ptr_def pos_of_def by (cases "p > 0") auto

lemma pos_of_inj:
  "valid_ptr f p \<Longrightarrow> valid_ptr f q \<Longrightarrow> 0 \<le> main_count f \<Longrightarrow>
   pos_of f p = pos_of f q \<Longrightarrow> p = q"
  unfolding valid_ptr_def pos_of_def by (cases "p > 0"; cases "q > 0") auto

text \<open>Reading through a valid pointer gives the entry at its place.\<close>

lemma read_valid:
  assumes "valid_ptr f p" "0 \<le> main_count f" "0 \<le> aux_count f"
    "main_count f + aux_count f \<le> int (length (ents f))"
  shows "\<exists>ia ix. loc p = Inr (ia, ix) \<and> sf_read f ia ix (main_count f) = Inr (ent_at f p)
           \<and> nat (slot_no ia ix (main_count f) - 1) = pos_of f p
           \<and> 1 \<le> slot_no ia ix (main_count f)"
proof (cases "p > 0")
  case True
  with assms have "p \<le> main_count f" by (auto simp: valid_ptr_def)
  with assms True show ?thesis
    by (intro exI[of _ False] exI[of _ p])
       (simp add: loc_def DELETED_def sf_read_def slot_no_def ent_at_def pos_of_def)
next
  case False
  with assms have "p \<le> - 2" "- p - 1 \<le> aux_count f" by (auto simp: valid_ptr_def)
  with assms False show ?thesis
    by (intro exI[of _ True] exI[of _ "- p - 1"])
       (simp add: loc_def DELETED_def sf_read_def slot_no_def ent_at_def pos_of_def)
qed

lemma read_D:
  assumes "1 \<le> j" "j \<le> main_count f" "main_count f + aux_count f \<le> int (length (ents f))"
    "0 \<le> aux_count f"
  shows "sf_read f False j m = Inr (ents f ! nat (j - 1))"
  using assms by (auto simp: sf_read_def slot_no_def Let_def)

lemma ent_at_D: "1 \<le> j \<Longrightarrow> ent_at f j = ents f ! nat (j - 1)"
  by (simp add: ent_at_def pos_of_def)

subsection \<open>Segments\<close>

lemma seg_append:
  "seg f c (xs @ ys) d \<longleftrightarrow> (\<exists>e. seg f c xs e \<and> seg f e ys d)"
  by (induction xs arbitrary: c) auto

lemma seg_snoc:
  "seg f c (xs @ [p]) d \<longleftrightarrow>
     seg f c xs p \<and> p \<noteq> 0 \<and> valid_ptr f p \<and> \<not> deleted (ent_at f p)
     \<and> next_ptr (ent_at f p) = d"
  by (auto simp: seg_append)

lemma seg_valid: "seg f c ps d \<Longrightarrow> p \<in> set ps \<Longrightarrow> valid_ptr f p \<and> \<not> deleted (ent_at f p)"
  by (induction ps arbitrary: c) auto

lemma seg_hd: "seg f c ps d \<Longrightarrow> ps \<noteq> [] \<Longrightarrow> c = hd ps"
  by (cases ps) auto

lemma seg_frame:
  assumes "seg f c ps d"
    and "\<And>p. p \<in> set ps \<Longrightarrow> valid_ptr f p \<Longrightarrow> valid_ptr f' p \<and> ent_at f' p = ent_at f p"
  shows "seg f' c ps d"
  using assms by (induction ps arbitrary: c) auto

text \<open>The walk with fuel and the segments to the end mark describe the same lists.\<close>

lemma follow_seg: "follow f c n = Some ps \<Longrightarrow> seg f c ps 0"
proof (induction n arbitrary: c ps)
  case 0 then show ?case by (auto split: if_splits)
next
  case (Suc n)
  show ?case
  proof (cases "c = 0")
    case True with Suc.prems show ?thesis by simp
  next
    case False
    with Suc.prems have v: "valid_ptr f c" by (auto split: if_splits)
    show ?thesis
    proof (cases "deleted (ent_at f c)")
      case True
      with Suc.prems False v have "follow f (- 1) n = Some ps"
        by (simp add: deleted_def DELETED_def)
      then have "seg f (- 1) ps 0" by (rule Suc.IH)
      then have False by (cases ps) (auto simp: valid_ptr_def)
      then show ?thesis ..
    next
      case nd: False
      with Suc.prems False v obtain qs where
        "follow f (next_ptr (ent_at f c)) n = Some qs" "ps = c # qs"
        by auto
      with Suc.IH[of "next_ptr (ent_at f c)" qs] False v nd show ?thesis by simp
    qed
  qed
qed

lemma seg_follow: "seg f c ps 0 \<Longrightarrow> length ps \<le> n \<Longrightarrow> follow f c n = Some ps"
proof (induction n arbitrary: c ps)
  case 0 then show ?case by simp
next
  case (Suc n)
  then show ?case by (cases ps) auto
qed

lemma set_all_ptrs: "set (all_ptrs f) = {p. valid_ptr f p}"
proof -
  have a: "int ` {1..<Suc (nat (main_count f))} = {p. 1 \<le> p \<and> p \<le> main_count f}"
  proof (intro set_eqI iffI)
    fix x assume "x \<in> {p. 1 \<le> p \<and> p \<le> main_count f}"
    then have "x = int (nat x)" "nat x \<in> {1..<Suc (nat (main_count f))}" by auto
    then show "x \<in> int ` {1..<Suc (nat (main_count f))}" by blast
  qed auto
  have b: "(\<lambda>i. - int i - 1) ` {1..<Suc (nat (aux_count f))} = {p. p \<le> - 2 \<and> - p - 1 \<le> aux_count f}"
  proof (intro set_eqI iffI)
    fix x assume "x \<in> {p. p \<le> - 2 \<and> - p - 1 \<le> aux_count f}"
    then have "x = - int (nat (- x - 1)) - 1" "nat (- x - 1) \<in> {1..<Suc (nat (aux_count f))}" by auto
    then show "x \<in> (\<lambda>i. - int i - 1) ` {1..<Suc (nat (aux_count f))}" by blast
  qed auto
  have "set (all_ptrs f) = int ` {1..<Suc (nat (main_count f))}
          \<union> (\<lambda>i. - int i - 1) ` {1..<Suc (nat (aux_count f))}"
    by (simp only: all_ptrs_def set_append set_map set_upt)
  also have "\<dots> = {p. valid_ptr f p}"
    unfolding a b valid_ptr_def by blast
  finally show ?thesis .
qed

lemma set_live_ptrs: "set (live_ptrs f) = {p. valid_ptr f p \<and> \<not> deleted (ent_at f p)}"
  by (auto simp: live_ptrs_def set_all_ptrs)

lemma distinct_all_ptrs: "distinct (all_ptrs f)"
proof -
  have "inj_on int (set [1..<Suc (nat (main_count f))])" by (simp add: inj_on_def)
  moreover have "inj_on (\<lambda>i. - int i - 1) (set [1..<Suc (nat (aux_count f))])"
    by (simp add: inj_on_def)
  moreover have "\<And>x y::nat. int x \<noteq> - int y - 1" by linarith
  then have "int ` set [1..<Suc (nat (main_count f))]
                 \<inter> (\<lambda>i. - int i - 1) ` set [1..<Suc (nat (aux_count f))] = {}"
    by (auto simp del: set_upt upt_Suc)
  ultimately show ?thesis
    unfolding all_ptrs_def by (simp only: distinct_append distinct_map distinct_upt set_map)
qed

lemma length_all_ptrs: "length (all_ptrs f) = nat (main_count f) + nat (aux_count f)"
  by (simp add: all_ptrs_def)

lemma seg_distinct_length:
  assumes "seg f c ps d" "distinct ps" "0 \<le> main_count f" "0 \<le> aux_count f"
  shows "int (length ps) \<le> main_count f + aux_count f"
proof -
  have "set ps \<subseteq> set (all_ptrs f)"
    using seg_valid[OF assms(1)] by (auto simp: set_all_ptrs)
  then have "card (set ps) \<le> card (set (all_ptrs f))" by (intro card_mono) auto
  then have "length ps \<le> length (all_ptrs f)"
    using assms(2) distinct_all_ptrs[of f] by (simp add: distinct_card)
  then show ?thesis using assms(3,4) by (simp add: length_all_ptrs)
qed

text \<open>The invariant of the logical list in terms of segments.\<close>

lemma logical_ok_iff:
  assumes "0 \<le> main_count f" "0 \<le> aux_count f"
  shows "logical_ok f \<longleftrightarrow>
    (\<exists>ps. seg f (head_ptr f) ps 0 \<and> distinct ps \<and> set ps = set (live_ptrs f)
          \<and> sorted (map (key_at f) ps))"
proof
  assume "logical_ok f"
  then obtain ps where "logical_list f = Some ps" "distinct ps" "set ps = set (live_ptrs f)"
    "sorted (map (key_at f) ps)"
    by (auto simp: logical_ok_def split: option.splits)
  then show "\<exists>ps. seg f (head_ptr f) ps 0 \<and> distinct ps \<and> set ps = set (live_ptrs f)
          \<and> sorted (map (key_at f) ps)"
    using follow_seg[of f "head_ptr f" _ ps] by (auto simp: logical_list_def)
next
  assume "\<exists>ps. seg f (head_ptr f) ps 0 \<and> distinct ps \<and> set ps = set (live_ptrs f)
          \<and> sorted (map (key_at f) ps)"
  then obtain ps where ps: "seg f (head_ptr f) ps 0" "distinct ps" "set ps = set (live_ptrs f)"
    "sorted (map (key_at f) ps)" by blast
  have "int (length ps) \<le> main_count f + aux_count f"
    using seg_distinct_length[OF ps(1,2) assms] .
  then have "length ps \<le> nat (main_count f + aux_count f)" by simp
  from seg_follow[OF ps(1) this] ps show "logical_ok f"
    by (simp add: logical_ok_def logical_list_def)
qed

lemma seg_unique: "seg f c ps 0 \<Longrightarrow> seg f c qs 0 \<Longrightarrow> ps = qs"
proof (induction ps arbitrary: c qs)
  case Nil then show ?case by (cases qs) auto
next
  case (Cons p ps) then show ?case by (cases qs) auto
qed

section \<open>reorganize\<close>

lemma hdr_set_simps [simp]:
  "main_count (hdr_set f m a h) = m"
  "aux_count (hdr_set f m a h) = a"
  "head_ptr (hdr_set f m a h) = h"
  "ents (hdr_set f m a h) = ents f"
  by (simp_all add: hdr_set_def)

lemma length_relink [simp]: "length (relink i n es) = length es"
  by (induction es arbitrary: i) auto

lemma nth_relink:
  "k < length es \<Longrightarrow>
   relink i n es ! k = (es ! k) \<lparr> next_ptr := (if i + int k < n then i + int k + 1 else 0) \<rparr>"
proof (induction es arbitrary: i k)
  case Nil then show ?case by simp
next
  case (Cons e es)
  show ?case
  proof (cases k)
    case 0 then show ?thesis by simp
  next
    case (Suc k')
    with Cons.prems have "k' < length es" by simp
    from Cons.IH[OF this, of "i + 1"] Suc show ?thesis by (simp add: algebra_simps)
  qed
qed

lemma map_key_relink [simp]: "map key (relink i n es) = map key es"
  by (induction es arbitrary: i) auto

lemma map_rid_relink [simp]: "map rid (relink i n es) = map rid es"
  by (induction es arbitrary: i) auto

lemma packable_relink: "list_all packable es \<Longrightarrow> list_all packable (relink i n es)"
  by (induction es arbitrary: i) auto

lemma dump_hdr [simp]:
  "main_count (dump f i n es) = main_count f"
  "aux_count (dump f i n es) = aux_count f"
  "head_ptr (dump f i n es) = head_ptr f"
  by (induction es arbitrary: f i) auto

lemma dump_ents:
  "1 \<le> i \<Longrightarrow> nat (i - 1) \<le> length (ents f) \<Longrightarrow>
   ents (dump f i n es) =
     take (nat (i - 1)) (ents f) @ relink i n es @ drop (nat (i - 1) + length es) (ents f)"
proof (induction es arbitrary: f i)
  case Nil then show ?case by simp
next
  case (Cons e es)
  let ?k = "nat (i - 1)"
  let ?e = "e \<lparr> next_ptr := (if i < n then i + 1 else 0) \<rparr>"
  let ?f1 = "f \<lparr> ents := put ?k ?e (ents f) \<rparr>"
  have e1: "ents ?f1 = take ?k (ents f) @ ?e # drop (Suc ?k) (ents f)"
    using Cons.prems by (simp add: put_eq)
  have k1: "nat (i + 1 - 1) = Suc ?k" using Cons.prems by simp
  have len: "Suc ?k \<le> length (ents ?f1)" using Cons.prems by (simp add: e1)
  have "ents (dump ?f1 (i + 1) n es) =
        take (Suc ?k) (ents ?f1) @ relink (i + 1) n es @ drop (Suc ?k + length es) (ents ?f1)"
    using Cons.IH[of "i + 1" ?f1] Cons.prems len k1 by simp
  moreover have "take (Suc ?k) (ents ?f1) = take ?k (ents f) @ [?e]"
    using Cons.prems by (simp add: e1)
  moreover have "drop (Suc ?k + length es) (ents ?f1) = drop (?k + length (e # es)) (ents f)"
    using Cons.prems by (simp add: e1 add.commute)
  ultimately show ?case by simp
qed

lemma relink_same:
  "\<forall>k < length es. next_ptr (es ! k) = (if i + int k < n then i + int k + 1 else 0) \<Longrightarrow>
   relink i n es = es"
proof (induction es arbitrary: i)
  case Nil then show ?case by simp
next
  case (Cons e es)
  have h0: "next_ptr e = (if i < n then i + 1 else 0)" using Cons.prems by force
  have "\<forall>k < length es.
          next_ptr (es ! k) = (if (i + 1) + int k < n then (i + 1) + int k + 1 else 0)"
  proof (intro allI impI)
    fix k assume "k < length es"
    then have "Suc k < length (e # es)" by simp
    from Cons.prems[rule_format, OF this]
    show "next_ptr (es ! k) = (if (i + 1) + int k < n then (i + 1) + int k + 1 else 0)"
      by (simp add: algebra_simps)
  qed
  from Cons.IH[OF this] h0 show ?case by simp
qed

lemma collect_linked:
  assumes "linked n (ents f)"
  shows "j < n \<Longrightarrow> seen + int (n - j) \<le> cap \<Longrightarrow>
         collect f b (int j + 1) seen cap out = Inr (out @ drop j (take n (ents f)))"
proof (induction "n - j" arbitrary: j seen out)
  case 0 then show ?case by simp
next
  case (Suc d)
  let ?xs = "ents f"
  have jn: "j < n" and jl: "j < length ?xs" using Suc.prems assms by (auto simp: linked_def)
  have nx: "next_ptr (?xs ! j) = (if Suc j < n then int j + 2 else 0)"
    using assms jn by (simp add: linked_def)
  have rd: "sf_read f False (int j + 1) b = Inr (?xs ! j)"
    using jl by (simp add: sf_read_def slot_no_def)
  have lc: "loc (int j + 1) = Inr (False, int j + 1)" by (simp add: loc_def DELETED_def)
  have nd: "\<not> deleted (?xs ! j)" using nx by (simp add: deleted_def DELETED_def)
  have sc: "seen < cap" using Suc.prems jn by linarith
  have step: "collect f b (int j + 1) seen cap out =
              collect f b (next_ptr (?xs ! j)) (seen + 1) cap (out @ [?xs ! j])"
    using rd lc nd sc by (subst collect.simps) (simp add: is_end_def)
  have nl: "n \<le> length ?xs" using assms by (simp add: linked_def)
  have "j < length (take n ?xs)" using jn nl by simp
  then have "drop j (take n ?xs) = take n ?xs ! j # drop (Suc j) (take n ?xs)"
    by (rule Cons_nth_drop_Suc[symmetric])
  then have dr: "drop j (take n ?xs) = ?xs ! j # drop (Suc j) (take n ?xs)"
    using jn by simp
  show ?case
  proof (cases "Suc j < n")
    case True
    have "collect f b (int (Suc j) + 1) (seen + 1) cap (out @ [?xs ! j])
          = Inr ((out @ [?xs ! j]) @ drop (Suc j) (take n ?xs))"
      using Suc.hyps(1)[of "Suc j" "seen + 1" "out @ [?xs ! j]"] Suc.hyps(2) True Suc.prems
      by (simp add: algebra_simps)
    with step nx True dr show ?thesis by (simp add: algebra_simps)
  next
    case False
    then have "drop (Suc j) (take n ?xs) = []" by simp
    moreover have "collect f b 0 (seen + 1) cap (out @ [?xs ! j]) = Inr (out @ [?xs ! j])"
      by (subst collect.simps) (simp add: is_end_def)
    ultimately show ?thesis using step nx False dr by simp
  qed
qed

lemma linked_relink: "linked (length es) (relink 1 (int (length es)) es @ ys)"
  by (auto simp: linked_def nth_append nth_relink)

text \<open>A second run of reorganize finds the file as the first run left it.\<close>

lemma reorganize_fixpoint:
  assumes "sf_reorganize f = Inr f'"
  shows "sf_reorganize f' = Inr f'"
proof (cases "head_ptr f = 0")
  case True
  with assms have "f' = hdr_set f 0 0 0" by (simp add: sf_reorganize_def)
  then show ?thesis by (simp add: sf_reorganize_def hdr_set_def)
next
  case False
  with assms obtain out where
    co: "collect f (main_count f) (head_ptr f) 0 (main_count f + aux_count f + 8) [] = Inr out"
    and f': "f' = hdr_set (dump f 1 (int (length out)) out) (int (length out)) 0
                    (if int (length out) \<ge> 1 then 1 else 0)"
    by (auto simp: sf_reorganize_def Let_def split: sum.splits)
  let ?n = "length out"
  have en: "ents f' = relink 1 (int ?n) out @ drop ?n (ents f)"
    using dump_ents[of 1 f "int ?n" out] by (simp add: f')
  have hd: "main_count f' = int ?n" "aux_count f' = 0" "head_ptr f' = (if ?n \<ge> 1 then 1 else 0)"
    by (auto simp: f')
  show ?thesis
  proof (cases "?n = 0")
    case True
    then show ?thesis using hd by (simp add: sf_reorganize_def hdr_set_def)
  next
    case n0: False
    have lk: "linked ?n (ents f')" unfolding en by (rule linked_relink)
    have col: "collect f' (int ?n) 1 0 (int ?n + 0 + 8) [] = Inr (take ?n (ents f'))"
      using collect_linked[OF lk, of 0 0 "int ?n + 0 + 8" "int ?n" "[]"] n0 by simp
    have tk: "take ?n (ents f') = relink 1 (int ?n) out" by (simp add: en)
    have same: "relink 1 (int ?n) (relink 1 (int ?n) out) = relink 1 (int ?n) out"
      by (rule relink_same) (auto simp: nth_relink)
    have "ents (dump f' 1 (int ?n) (relink 1 (int ?n) out)) = ents f'"
      using dump_ents[of 1 f' "int ?n" "relink 1 (int ?n) out"] same by (simp add: en)
    then have "dump f' 1 (int ?n) (relink 1 (int ?n) out) = f'"
      by (intro sfile.equality) simp_all
    moreover have "Suc 0 \<le> ?n" using n0 by (cases out) auto
    ultimately show ?thesis using hd col tk
      by (simp add: sf_reorganize_def hdr_set_def)
  qed
qed

text \<open>On a well-formed file the walk of reorganize collects the logical list.\<close>

lemma collect_seg:
  assumes "0 \<le> main_count f" "0 \<le> aux_count f"
    "main_count f + aux_count f \<le> int (length (ents f))"
  shows "seg f c ps 0 \<Longrightarrow> seen + int (length ps) \<le> cap \<Longrightarrow>
         collect f (main_count f) c seen cap out = Inr (out @ map (ent_at f) ps)"
proof (induction ps arbitrary: c seen out)
  case Nil
  then show ?case by (subst collect.simps) (simp add: is_end_def)
next
  case (Cons p ps)
  then have c: "c = p" "p \<noteq> 0" "valid_ptr f p" "\<not> deleted (ent_at f p)"
    and rest: "seg f (next_ptr (ent_at f p)) ps 0" by auto
  from read_valid[OF c(3) assms] obtain ia ix where
    rd: "loc p = Inr (ia, ix)" "sf_read f ia ix (main_count f) = Inr (ent_at f p)" by blast
  have sc: "seen < cap" using Cons.prems(2) by simp
  have "collect f (main_count f) c seen cap out =
        collect f (main_count f) (next_ptr (ent_at f p)) (seen + 1) cap (out @ [ent_at f p])"
    using c rd sc by (subst collect.simps) (simp add: is_end_def)
  also have "\<dots> = Inr ((out @ [ent_at f p]) @ map (ent_at f) ps)"
    using Cons.prems(2) by (intro Cons.IH[OF rest]) simp
  finally show ?case by simp
qed

lemma seg_linked:
  assumes "linked n (ents f)" "main_count f = int n"
  shows "j \<le> n \<Longrightarrow>
         seg f (if j < n then int j + 1 else 0) (map (\<lambda>k. int k + 1) [j..<n]) 0"
proof (induction "n - j" arbitrary: j)
  case 0 then show ?case by simp
next
  case (Suc d)
  then have jn: "j < n" by simp
  have up: "[j..<n] = j # [Suc j..<n]"
    using jn by (simp add: upt_conv_Cons)
  have e: "ent_at f (int j + 1) = ents f ! j" by (simp add: ent_at_def pos_of_def)
  have nx: "next_ptr (ents f ! j) = (if Suc j < n then int j + 2 else 0)"
    using assms jn by (simp add: linked_def)
  have "seg f (if Suc j < n then int (Suc j) + 1 else 0) (map (\<lambda>k. int k + 1) [Suc j..<n]) 0"
    using Suc.hyps(1)[of "Suc j"] Suc.hyps(2) jn by simp
  moreover have "int (Suc j) + 1 = int j + 2" by simp
  ultimately have "seg f (next_ptr (ents f ! j)) (map (\<lambda>k. int k + 1) [Suc j..<n]) 0"
    unfolding nx by (cases "Suc j < n") (simp_all add: add.commute)
  moreover have "\<not> deleted (ents f ! j)"
    unfolding nx deleted_def DELETED_def by simp
  moreover have "valid_ptr f (int j + 1)" using jn assms(2) by (simp add: valid_ptr_def)
  ultimately show ?case using jn e
    by (simp add: up)
qed

lemma wf_logical:
  assumes "wf f"
  obtains ps where "seg f (head_ptr f) ps 0" "distinct ps" "set ps = set (live_ptrs f)"
    "sorted (map (key_at f) ps)" "logical_list f = Some ps"
    "int (length ps) \<le> main_count f + aux_count f"
proof -
  from assms have b: "0 \<le> main_count f" "0 \<le> aux_count f" and lo: "logical_ok f"
    by (auto simp: wf_def)
  from lo obtain ps where ps: "logical_list f = Some ps" "distinct ps"
    "set ps = set (live_ptrs f)" "sorted (map (key_at f) ps)"
    by (auto simp: logical_ok_def split: option.splits)
  have sg: "seg f (head_ptr f) ps 0"
    using ps(1) follow_seg by (simp add: logical_list_def)
  from seg_distinct_length[OF sg ps(2) b] ps sg that show thesis by blast
qed

lemma wf_basic:
  assumes "wf f"
  shows "0 \<le> main_count f" "0 \<le> aux_count f"
    "main_count f + aux_count f \<le> int (length (ents f))"
    "list_all packable (ents f)" "sorted (map key (take (nat (main_count f)) (ents f)))"
  using assms by (auto simp: wf_def)

lemma wfI:
  assumes "0 \<le> main_count f" "0 \<le> aux_count f"
    "main_count f + aux_count f \<le> int (length (ents f))"
    "list_all packable (ents f)" "sorted (map key (take (nat (main_count f)) (ents f)))"
    "seg f (head_ptr f) ps 0" "distinct ps" "set ps = set (live_ptrs f)"
    "sorted (map (key_at f) ps)"
  shows "wf f"
  using assms logical_ok_iff[OF assms(1,2)] unfolding wf_def by blast

lemma packable_ent_at:
  assumes "wf f" "valid_ptr f p"
  shows "packable (ent_at f p)"
proof -
  note b = wf_basic[OF assms(1)]
  have "pos_of f p < length (ents f)"
    using pos_of_bound[OF assms(2) b(1,2)] b(3) by linarith
  with b(4) show ?thesis by (simp add: ent_at_def list_all_length)
qed

text \<open>What reorganize does to a well-formed file.\<close>

lemma reorganize_wf:
  assumes "wf f" "logical_list f = Some ps"
  shows "\<exists>f'. sf_reorganize f = Inr f' \<and> wf f'
          \<and> main_count f' = int (length ps) \<and> aux_count f' = 0
          \<and> head_ptr f' = (if ps = [] then 0 else 1)
          \<and> take (length ps) (ents f') = relink 1 (int (length ps)) (map (ent_at f) ps)
          \<and> logical_list f' = Some (map (\<lambda>k. int k + 1) [0..<length ps])"
proof -
  note b = wf_basic[OF assms(1)]
  from wf_logical[OF assms(1)] assms(2) have
    sg: "seg f (head_ptr f) ps 0" and di: "distinct ps" and li: "set ps = set (live_ptrs f)"
    and so: "sorted (map (key_at f) ps)" and le: "int (length ps) \<le> main_count f + aux_count f"
    by auto
  let ?n = "length ps"
  let ?out = "map (ent_at f) ps"
  have nlen: "?n \<le> length (ents f)" using le b(3) by linarith
  have pk: "list_all packable ?out"
    using seg_valid[OF sg] packable_ent_at[OF assms(1)] by (auto simp: list_all_iff)
  show ?thesis
  proof (cases "head_ptr f = 0")
    case True
    with sg have e: "ps = []" by (cases ps) auto
    let ?f' = "hdr_set f 0 0 0"
    have r: "sf_reorganize f = Inr ?f'" using True by (simp add: sf_reorganize_def)
    have "set (live_ptrs ?f') = {}" by (simp add: live_ptrs_def all_ptrs_def)
    then have w: "wf ?f'"
      using b by (intro wfI[where ps="[]"]) auto
    have "logical_list ?f' = Some []" by (simp add: logical_list_def)
    with r w e show ?thesis by simp
  next
    case False
    with sg have ne: "ps \<noteq> []" by (cases ps) auto
    have co: "collect f (main_count f) (head_ptr f) 0 (main_count f + aux_count f + 8) [] = Inr ?out"
      using collect_seg[OF b(1,2,3) sg, of 0 "main_count f + aux_count f + 8" "[]"] le by simp
    let ?f' = "hdr_set (dump f 1 (int ?n) ?out) (int ?n) 0 1"
    have r: "sf_reorganize f = Inr ?f'"
      using False co ne by (simp add: sf_reorganize_def Let_def Suc_le_eq)
    have en0: "ents (dump f 1 (int ?n) ?out) = relink 1 (int ?n) ?out @ drop ?n (ents f)"
      using dump_ents[of 1 f "int ?n" ?out] by simp
    have en: "ents ?f' = relink 1 (int ?n) ?out @ drop ?n (ents f)"
      by (simp add: en0)
    have tk: "take ?n (ents ?f') = relink 1 (int ?n) ?out" by (simp add: en0)
    have lk: "linked ?n (ents ?f')"
      unfolding en using linked_relink[of ?out "drop ?n (ents f)"] by simp
    let ?qs = "map (\<lambda>k. int k + 1) [0..<?n]"
    have sg': "seg ?f' (head_ptr ?f') ?qs 0"
      using seg_linked[OF lk, of 0] ne by simp
    have keys: "map (key_at ?f') ?qs = map (key_at f) ps"
    proof (rule nth_equalityI)
      show "length (map (key_at ?f') ?qs) = length (map (key_at f) ps)" by simp
    next
      fix i assume "i < length (map (key_at ?f') ?qs)"
      then have i: "i < ?n" by simp
      then have "key_at ?f' (int i + 1) = key (relink 1 (int ?n) ?out ! i)"
        by (simp add: key_at_def ent_at_def pos_of_def en0 nth_append)
      also have "\<dots> = key_at f (ps ! i)" using i by (simp add: nth_relink key_at_def)
      finally show "map (key_at ?f') ?qs ! i = map (key_at f) ps ! i"
        using i by simp
    qed
    have allq: "set ?qs = {p. valid_ptr ?f' p}"
    proof (intro set_eqI iffI)
      fix x assume "x \<in> {p. valid_ptr ?f' p}"
      then have "1 \<le> x" "x \<le> int ?n" by (auto simp: valid_ptr_def)
      then have "x = int (nat (x - 1)) + 1" "nat (x - 1) \<in> set [0..<?n]" by auto
      then show "x \<in> set ?qs" unfolding set_map by (rule image_eqI)
    qed (auto simp: valid_ptr_def)
    have live': "set ?qs = set (live_ptrs ?f')"
      using seg_valid[OF sg'] allq unfolding set_live_ptrs by blast
    have "map key (take ?n (ents ?f')) = map (key_at f) ps"
      unfolding tk by (simp add: key_at_def comp_def)
    then have srt: "sorted (map key (take (nat (main_count ?f')) (ents ?f')))"
      using so by simp
    have w: "wf ?f'"
    proof (rule wfI[where ps="?qs"])
      show "main_count ?f' + aux_count ?f' \<le> int (length (ents ?f'))"
        using nlen by (simp add: en0)
      show "list_all packable (ents ?f')"
        using packable_relink[OF pk] b(4)
        by (auto simp: en0 list_all_iff dest: in_set_dropD)
      show "sorted (map (key_at ?f') ?qs)" using so keys by simp
      show "distinct ?qs" by (simp add: distinct_map inj_on_def)
    qed (use sg' live' srt in simp_all)
    have fl: "logical_list ?f' = Some ?qs"
      using seg_follow[OF sg', of "nat (main_count ?f' + aux_count ?f')"]
      by (simp add: logical_list_def)
    show ?thesis using r w tk fl ne by (intro exI[of _ ?f']) simp
  qed
qed

section \<open>Binary search and the scan for the predecessor in D\<close>

lemma sorted_D:
  assumes "sorted (map key (take (nat m) xs))" "1 \<le> i" "i \<le> j" "j \<le> m" "m \<le> int (length xs)"
  shows "key (xs ! nat (i - 1)) \<le> key (xs ! nat (j - 1))"
proof -
  let ?ys = "map key (take (nat m) xs)"
  have l: "nat (j - 1) < length ?ys" "nat (i - 1) \<le> nat (j - 1)" using assms by auto
  from sorted_nth_mono[OF assms(1) l(2) l(1)]
  show ?thesis using assms l by simp
qed

lemma lb_loop_ok:
  "0 \<le> aux_count f \<Longrightarrow> main_count f + aux_count f \<le> int (length (ents f)) \<Longrightarrow>
   m = main_count f \<Longrightarrow> sorted (map key (take (nat m) (ents f))) \<Longrightarrow>
   1 \<le> l \<Longrightarrow> r \<le> m \<Longrightarrow> ans = r + 1 \<Longrightarrow>
         (\<forall>i. 1 \<le> i \<and> i < l \<longrightarrow> key (ents f ! nat (i - 1)) < k) \<Longrightarrow>
         \<exists>lb. lb_loop f k m l r ans = Inr lb \<and> lb \<le> m + 1
              \<and> (\<forall>i. 1 \<le> i \<and> i < lb \<longrightarrow> key (ents f ! nat (i - 1)) < k)"
proof (induction f k m l r ans rule: lb_loop.induct)
  case (1 f k m l r ans)
  note basic = "1.prems"(1,2) and m = "1.prems"(3) and srt = "1.prems"(4)
  note l1 = "1.prems"(5) and rm = "1.prems"(6) and ans = "1.prems"(7) and low = "1.prems"(8)
  show ?case
  proof (cases "l \<le> r")
    case False
    then have "lb_loop f k m l r ans = Inr ans" by (subst lb_loop.simps) simp
    moreover have "\<forall>i. 1 \<le> i \<and> i < ans \<longrightarrow> key (ents f ! nat (i - 1)) < k"
      using low False ans by auto
    ultimately show ?thesis using rm ans by auto
  next
    case True
    let ?mid = "(l + r) div 2"
    have mid: "l \<le> ?mid" "?mid \<le> r" using True by auto
    have rd: "sf_read f False ?mid m = Inr (ents f ! nat (?mid - 1))"
      using mid l1 rm m basic by (intro read_D) auto
    let ?e = "ents f ! nat (?mid - 1)"
    have ml: "m \<le> int (length (ents f))" using basic m by linarith
    show ?thesis
    proof (cases "key ?e \<ge> k")
      case ge: True
      have st: "lb_loop f k m l r ans = lb_loop f k m l (?mid - 1) ?mid"
        using True rd ge by (subst lb_loop.simps) (simp add: Let_def)
      have "\<exists>lb. lb_loop f k m l (?mid - 1) ?mid = Inr lb \<and> lb \<le> m + 1
              \<and> (\<forall>i. 1 \<le> i \<and> i < lb \<longrightarrow> key (ents f ! nat (i - 1)) < k)"
        using mid rm low l1
        by (intro "1.IH"(1)[OF True refl rd ge basic m srt]) auto
      with st show ?thesis by simp
    next
      case lt: False
      have st: "lb_loop f k m l r ans = lb_loop f k m (?mid + 1) r ans"
        using True rd lt by (subst lb_loop.simps) (simp add: Let_def)
      have low': "\<forall>i. 1 \<le> i \<and> i < ?mid + 1 \<longrightarrow> key (ents f ! nat (i - 1)) < k"
      proof (intro allI impI)
        fix i assume i: "1 \<le> i \<and> i < ?mid + 1"
        have "key (ents f ! nat (i - 1)) \<le> key ?e"
          using sorted_D[OF srt, of i ?mid] i mid rm ml by auto
        with lt show "key (ents f ! nat (i - 1)) < k" by simp
      qed
      have "\<exists>lb. lb_loop f k m (?mid + 1) r ans = Inr lb \<and> lb \<le> m + 1
              \<and> (\<forall>i. 1 \<le> i \<and> i < lb \<longrightarrow> key (ents f ! nat (i - 1)) < k)"
        using mid rm l1 ans low'
        by (intro "1.IH"(2)[OF True refl rd lt basic m srt]) auto
      with st show ?thesis by simp
    qed
  qed
qed

lemma sf_lb_ok:
  assumes "wf f"
  shows "\<exists>lb. sf_lb f k = Inr lb \<and> lb \<le> main_count f + 1
          \<and> (\<forall>i. 1 \<le> i \<and> i < lb \<longrightarrow> key (ents f ! nat (i - 1)) < k)"
  using lb_loop_ok[OF wf_basic(2,3)[OF assms] refl wf_basic(5)[OF assms],
      of 1 "main_count f" "main_count f + 1" k]
  by (simp add: sf_lb_def Let_def)

lemma back_scan_ok:
  "0 \<le> aux_count f \<Longrightarrow> main_count f + aux_count f \<le> int (length (ents f)) \<Longrightarrow>
   j0 \<le> main_count f \<Longrightarrow>
         \<exists>j. back_scan f m j0 = Inr j \<and> j \<le> j0
            \<and> (1 \<le> j \<longrightarrow> \<not> deleted (ents f ! nat (j - 1)))"
proof (induction f m j0 rule: back_scan.induct)
  case (1 f m j)
  note basic = "1.prems"(1,2) and jm = "1.prems"(3)
  show ?case
  proof (cases "j \<ge> 1")
    case False
    then have "back_scan f m j = Inr j" by (subst back_scan.simps) simp
    with False show ?thesis by simp
  next
    case True
    have rd: "sf_read f False j m = Inr (ents f ! nat (j - 1))"
      using True jm basic by (intro read_D) auto
    show ?thesis
    proof (cases "deleted (ents f ! nat (j - 1))")
      case False
      then have "back_scan f m j = Inr j" using True rd by (subst back_scan.simps) simp
      with False show ?thesis by simp
    next
      case del: True
      have st: "back_scan f m j = back_scan f m (j - 1)"
        using True rd del by (subst back_scan.simps) simp
      have "\<exists>j'. back_scan f m (j - 1) = Inr j' \<and> j' \<le> j - 1
            \<and> (1 \<le> j' \<longrightarrow> \<not> deleted (ents f ! nat (j' - 1)))"
        using jm del by (intro "1.IH"[OF True rd _ basic]) auto
      with st show ?thesis by force
    qed
  qed
qed

section \<open>Linking a new entry into the logical list\<close>

lemma valid_ptr_cong:
  "main_count g = main_count f \<Longrightarrow> aux_count g = aux_count f \<Longrightarrow>
   valid_ptr g p = valid_ptr f p"
  by (simp add: valid_ptr_def)

lemma pos_of_cong: "main_count g = main_count f \<Longrightarrow> pos_of g p = pos_of f p"
  by (simp add: pos_of_def)

lemma pos_valid_less:
  assumes "wf f" "valid_ptr f p"
  shows "pos_of f p < nat (main_count f + aux_count f)"
    and "pos_of f p < length (ents f)"
proof -
  note b = wf_basic[OF assms(1)]
  from pos_of_bound[OF assms(2) b(1,2)]
  show "pos_of f p < nat (main_count f + aux_count f)" by linarith
  with b(3) show "pos_of f p < length (ents f)" by linarith
qed

text \<open>
  The first write of insert puts the new entry right after the counted regions; the
  file stays well-formed and its logical list is the same.
\<close>

lemma wf_append_slot:
  assumes "wf f" "packable e"
  defines "f1 \<equiv> f \<lparr> ents := put (nat (main_count f + aux_count f)) e (ents f) \<rparr>"
  shows "wf f1" and "logical_list f1 = logical_list f"
    and "main_count f1 + aux_count f1 < int (length (ents f1))"
proof -
  note b = wf_basic[OF assms(1)]
  let ?N = "nat (main_count f + aux_count f)"
  have N: "?N \<le> length (ents f)" using b by linarith
  have hd: "main_count f1 = main_count f" "aux_count f1 = aux_count f" "head_ptr f1 = head_ptr f"
    "ents f1 = put ?N e (ents f)" by (simp_all add: f1_def)
  from wf_logical[OF assms(1)] obtain ps where
    ps: "seg f (head_ptr f) ps 0" "distinct ps" "set ps = set (live_ptrs f)"
    "sorted (map (key_at f) ps)" "logical_list f = Some ps"
    "int (length ps) \<le> main_count f + aux_count f" by blast
  have ea: "ent_at f1 p = ent_at f p" if "valid_ptr f p" for p
  proof -
    have "pos_of f p < ?N" using pos_valid_less[OF assms(1) that] by simp
    then show ?thesis
      using N by (simp add: ent_at_def hd pos_of_cong[OF hd(1)] nth_put_other)
  qed
  have va: "valid_ptr f1 p = valid_ptr f p" for p
    by (rule valid_ptr_cong[OF hd(1,2)])
  have sg: "seg f1 (head_ptr f1) ps 0"
    unfolding hd(3) by (rule seg_frame[OF ps(1)]) (simp add: va ea)
  have keys: "map (key_at f1) ps = map (key_at f) ps"
    using seg_valid[OF ps(1)] by (auto simp: key_at_def ea)
  have live: "set (live_ptrs f1) = set (live_ptrs f)"
    unfolding set_live_ptrs using ea va by auto
  have len: "length (ents f1) = max (length (ents f)) (Suc ?N)"
    by (simp add: hd length_put)
  show lt: "main_count f1 + aux_count f1 < int (length (ents f1))"
    using b by (simp add: len hd(1,2))
  have tk: "take (nat (main_count f1)) (ents f1) = take (nat (main_count f)) (ents f)"
    unfolding hd using b N by (intro take_put) auto
  show "wf f1"
  proof (rule wfI[where ps=ps])
    show "list_all packable (ents f1)"
      unfolding hd by (rule list_all_put[OF b(4) assms(2) packable_zero])
    show "sorted (map key (take (nat (main_count f1)) (ents f1)))"
      unfolding tk by (rule b(5))
    show "set ps = set (live_ptrs f1)" using ps(3) live by simp
    show "sorted (map (key_at f1) ps)" unfolding keys by (rule ps(4))
  qed (use lt sg ps(2) b hd in simp_all)
  have "follow f1 (head_ptr f1) (nat (main_count f1 + aux_count f1)) = Some ps"
    using ps(6) by (intro seg_follow[OF sg]) (simp add: hd)
  then have "logical_list f1 = Some ps" by (simp add: logical_list_def)
  then show "logical_list f1 = logical_list f" using ps(5) by simp
qed

text \<open>
  The file after the splice: the new entry \<open>e\<close> at the first free slot of A, pointing
  to the first entry of \<open>post\<close>, and the last entry of \<open>pre\<close> (or the head) pointing to
  it.  If the keys of \<open>pre\<close> are at most the new key and those of \<open>post\<close> at least
  it, the file is well-formed again, its logical list being \<open>pre\<close>, the new entry,
  \<open>post\<close>.
\<close>

lemma splice_wf:
  assumes w: "wf f" and lt: "main_count f + aux_count f < int (length (ents f))"
    and ll: "logical_list f = Some (pre @ post)"
    and pk: "packable e"
    and lo: "\<forall>p\<in>set pre. key_at f p \<le> key e" and hi: "\<forall>p\<in>set post. key e \<le> key_at f p"
    and gm: "main_count g = main_count f" and ga: "aux_count g = aux_count f + 1"
    and gh: "head_ptr g = (if pre = [] then - aux_count f - 2 else head_ptr f)"
    and ge: "ents g =
      (let E1 = (ents f)[nat (main_count f + aux_count f) :=
                   e \<lparr> next_ptr := (if post = [] then 0 else hd post) \<rparr>]
       in if pre = [] then E1
          else E1[pos_of f (last pre) := (ent_at f (last pre)) \<lparr> next_ptr := - aux_count f - 2 \<rparr>])"
  shows "wf g" and "logical_list g = Some (pre @ (- aux_count f - 2) # post)"
proof -
  note b = wf_basic[OF w]
  let ?m = "main_count f" and ?a = "aux_count f"
  let ?N = "nat (?m + ?a)"
  let ?newp = "- ?a - 2"
  let ?cur = "if post = [] then 0 else hd post"
  let ?e' = "e \<lparr> next_ptr := ?cur \<rparr>"
  let ?E1 = "(ents f)[?N := ?e']"
  let ?prev = "last pre"
  let ?prev' = "(ent_at f ?prev) \<lparr> next_ptr := ?newp \<rparr>"
  from wf_logical[OF w] obtain ps0 where
    ps0: "seg f (head_ptr f) ps0 0" "distinct ps0" "set ps0 = set (live_ptrs f)"
    "sorted (map (key_at f) ps0)" "logical_list f = Some ps0"
    "int (length ps0) \<le> main_count f + aux_count f" by blast
  from ps0(5) ll have eq: "ps0 = pre @ post" by simp
  note sg = ps0(1)[unfolded eq] and di = ps0(2)[unfolded eq] and li = ps0(3)[unfolded eq]
    and so = ps0(4)[unfolded eq] and le = ps0(6)[unfolded eq]
  have N: "?N < length (ents f)" using lt b by linarith
  have val: "valid_ptr f p \<and> \<not> deleted (ent_at f p)" if "p \<in> set (pre @ post)" for p
    using seg_valid[OF sg that] .
  have nv: "\<not> valid_ptr f ?newp" using b by (simp add: valid_ptr_def)
  have new_notin: "?newp \<notin> set (pre @ post)" using val nv by blast
  have vg: "valid_ptr g p \<longleftrightarrow> valid_ptr f p \<or> p = ?newp" for p
    unfolding valid_ptr_def gm ga using b(2) by auto
  have pg: "pos_of g p = pos_of f p" for p by (rule pos_of_cong[OF gm])
  have pn: "pos_of f ?newp = ?N" using b by (simp add: pos_of_def)
  have pl: "pos_of f p < ?N" if "valid_ptr f p" for p
    using pos_valid_less(1)[OF w that] .
  have lenE: "length (ents g) = length (ents f)"
    unfolding ge by (simp add: Let_def)
  have prev_valid: "valid_ptr f ?prev" if "pre \<noteq> []"
    using val[of ?prev] that by simp
  have e_new: "ent_at g ?newp = ?e'"
  proof (cases "pre = []")
    case True
    then show ?thesis using N by (simp add: ent_at_def pg pn ge Let_def)
  next
    case False
    have "pos_of f ?prev \<noteq> ?N" using pl[OF prev_valid[OF False]] by simp
    then show ?thesis using N False by (simp add: ent_at_def pg pn ge Let_def)
  qed
  have e_prev: "ent_at g ?prev = ?prev'" if "pre \<noteq> []"
  proof -
    have "pos_of f ?prev < length (ents f)" using pl[OF prev_valid[OF that]] N by simp
    then show ?thesis using that by (simp add: ent_at_def pg ge Let_def)
  qed
  have e_other: "ent_at g p = ent_at f p" if "valid_ptr f p" "pre \<noteq> [] \<longrightarrow> p \<noteq> ?prev" for p
  proof -
    have 1: "pos_of f p \<noteq> ?N" using pl[OF that(1)] by simp
    show ?thesis
    proof (cases "pre = []")
      case True
      then show ?thesis using 1 by (simp add: ent_at_def pg ge Let_def)
    next
      case False
      with that have "p \<noteq> ?prev" by simp
      with pos_of_inj[OF that(1) prev_valid[OF False] b(1)] have "pos_of f p \<noteq> pos_of f ?prev"
        by blast
      then show ?thesis using 1 False by (simp add: ent_at_def pg ge Let_def)
    qed
  qed
  have key_same: "key_at g p = key_at f p" if "valid_ptr f p" for p
  proof (cases "pre \<noteq> [] \<and> p = ?prev")
    case True
    then show ?thesis using e_prev by (simp add: key_at_def)
  next
    case False
    then show ?thesis using e_other[OF that] by (auto simp: key_at_def)
  qed
  have cur_ok: "?cur \<noteq> - 1"
  proof (cases post)
    case Nil then show ?thesis by simp
  next
    case (Cons q qs)
    then have "valid_ptr f q" using val[of q] by simp
    then show ?thesis using Cons valid_ptr_nz by auto
  qed
  have live_new: "\<not> deleted (ent_at g ?newp)"
    unfolding e_new using cur_ok by (simp add: deleted_def DELETED_def)
  have live_same: "deleted (ent_at g p) = deleted (ent_at f p)"
    if "valid_ptr f p" "p \<in> set (pre @ post) \<or> \<not> (pre \<noteq> [] \<and> p = ?prev)" for p
  proof (cases "pre \<noteq> [] \<and> p = ?prev")
    case True
    then have "\<not> deleted (ent_at g p)"
      using e_prev b(2) by (simp add: deleted_def DELETED_def)
    moreover have "\<not> deleted (ent_at f p)" using True val[of p] by simp
    ultimately show ?thesis by simp
  next
    case False
    then show ?thesis using e_other[OF that(1)] by auto
  qed
  \<comment> \<open>the segments\<close>
  have sg_post: "seg g ?cur post 0 \<and> seg f ?cur post 0
                 \<and> (pre \<noteq> [] \<longrightarrow> next_ptr (ent_at f ?prev) = ?cur
                        \<and> seg f (head_ptr f) (butlast pre) ?prev)"
  proof (cases "pre = []")
    case True
    with sg have s: "seg f (head_ptr f) post 0" by simp
    then have c: "head_ptr f = ?cur" by (cases post) auto
    have "seg g ?cur post 0"
      unfolding c[symmetric]
      by (rule seg_frame[OF s]) (use True e_other vg in auto)
    with s c True show ?thesis by simp
  next
    case False
    then obtain pre0 pv where pre: "pre = pre0 @ [pv]" by (cases pre rule: rev_cases) auto
    have lp: "?prev = pv" by (simp add: pre)
    from sg have "seg f (head_ptr f) (pre0 @ pv # post) 0" by (simp add: pre)
    then obtain c1 where c1: "seg f (head_ptr f) pre0 c1" "seg f c1 (pv # post) 0"
      unfolding seg_append by blast
    then have c1p: "c1 = pv" and sp: "seg f (next_ptr (ent_at f pv)) post 0" by auto
    from sp have c: "next_ptr (ent_at f pv) = ?cur" by (cases post) auto
    have "pv \<notin> set post" using di by (simp add: pre)
    then have "seg g ?cur post 0"
      unfolding c[symmetric]
      by (intro seg_frame[OF sp]) (use val e_other vg lp in auto)
    moreover have "butlast pre = pre0" by (simp add: pre)
    ultimately show ?thesis using sp c c1 c1p False lp by simp
  qed
  have sg': "seg g (head_ptr g) (pre @ ?newp # post) 0"
  proof (cases "pre = []")
    case True
    have "seg g ?newp (?newp # post) 0"
      using sg_post live_new vg[of ?newp] b(2) e_new by simp
    with True gh show ?thesis by simp
  next
    case False
    then obtain pre0 pv where pre: "pre = pre0 @ [pv]" by (cases pre rule: rev_cases) auto
    have lp: "?prev = pv" and bl: "butlast pre = pre0" by (simp_all add: pre)
    have dp: "pv \<notin> set pre0" using di by (simp add: pre)
    have s1: "seg g (head_ptr f) pre0 pv"
    proof (rule seg_frame)
      show "seg f (head_ptr f) pre0 pv" using sg_post False lp bl by simp
      fix p assume p: "p \<in> set pre0" "valid_ptr f p"
      then have "p \<noteq> ?prev" using dp lp by blast
      then show "valid_ptr g p \<and> ent_at g p = ent_at f p"
        using e_other[OF p(2)] vg p(2) by simp
    qed
    have s2: "seg g pv [pv] ?newp"
      using prev_valid[OF False] vg e_prev[OF False] b(2) valid_ptr_nz[OF prev_valid[OF False]]
      unfolding lp by (simp add: deleted_def DELETED_def)
    have s3: "seg g ?newp (?newp # post) 0"
      using sg_post live_new vg[of ?newp] b(2) e_new by simp
    have "seg g (head_ptr f) (pre0 @ [pv] @ ?newp # post) 0"
      unfolding seg_append using s1 s2 s3 by blast
    then show ?thesis using False gh by (simp add: pre)
  qed
  have live': "set (pre @ ?newp # post) = set (live_ptrs g)"
  proof (intro set_eqI iffI)
    fix p assume "p \<in> set (pre @ ?newp # post)"
    then consider "p = ?newp" | "p \<in> set (pre @ post)" by auto
    then show "p \<in> set (live_ptrs g)"
    proof cases
      case 1 then show ?thesis using live_new vg by (simp add: set_live_ptrs)
    next
      case 2
      then show ?thesis using val[OF 2] live_same[of p] vg by (simp add: set_live_ptrs)
    qed
  next
    fix p assume "p \<in> set (live_ptrs g)"
    then have p: "valid_ptr g p" "\<not> deleted (ent_at g p)" by (auto simp: set_live_ptrs)
    show "p \<in> set (pre @ ?newp # post)"
    proof (cases "p = ?newp")
      case True then show ?thesis by simp
    next
      case False
      with p vg have v: "valid_ptr f p" by simp
      show ?thesis
      proof (cases "pre \<noteq> [] \<and> p = ?prev")
        case True then show ?thesis by simp
      next
        case False
        then have "\<not> deleted (ent_at f p)" using p(2) e_other[OF v] by auto
        then have "p \<in> set (live_ptrs f)" using v by (simp add: set_live_ptrs)
        then show ?thesis using li by auto
      qed
    qed
  qed
  have kp: "map (key_at g) pre = map (key_at f) pre"
    using val key_same by (intro map_cong) auto
  have kq: "map (key_at g) post = map (key_at f) post"
    using val key_same by (intro map_cong) auto
  have kn: "key_at g ?newp = key e" by (simp add: key_at_def e_new)
  have so': "sorted (map (key_at g) (pre @ ?newp # post))"
    using so lo hi by (simp add: kp kq kn sorted_append)
  have tk: "map key (take (nat ?m) (ents g)) = map key (take (nat ?m) (ents f))"
  proof (rule nth_equalityI)
    show "length (map key (take (nat ?m) (ents g))) = length (map key (take (nat ?m) (ents f)))"
      by (simp add: lenE)
  next
    fix i assume "i < length (map key (take (nat ?m) (ents g)))"
    then have i: "i < nat ?m" "i < length (ents f)" by (simp_all add: lenE)
    then have iN: "i \<noteq> ?N" using b by linarith
    have "key (ents g ! i) = key (ents f ! i)"
    proof (cases "pre \<noteq> [] \<and> i = pos_of f ?prev")
      case True
      then show ?thesis using i iN by (simp add: ge Let_def ent_at_def)
    next
      case False
      then show ?thesis using i iN by (auto simp: ge Let_def)
    qed
    then show "map key (take (nat ?m) (ents g)) ! i = map key (take (nat ?m) (ents f)) ! i"
      using i by (simp add: lenE)
  qed
  have pk': "list_all packable (ents g)"
  proof -
    have 1: "list_all packable ?E1"
      by (rule list_all_update[OF b(4)]) (simp add: pk)
    show ?thesis
    proof (cases "pre = []")
      case True then show ?thesis using 1 by (simp add: ge Let_def)
    next
      case False
      have "packable ?prev'" using packable_ent_at[OF w prev_valid[OF False]] by simp
      from list_all_update[OF 1 this] show ?thesis using False by (simp add: ge Let_def)
    qed
  qed
  show "wf g"
  proof (rule wfI[where ps="pre @ ?newp # post"])
    show "main_count g + aux_count g \<le> int (length (ents g))"
      unfolding gm ga lenE using lt by simp
    show "sorted (map key (take (nat (main_count g)) (ents g)))"
      unfolding gm tk by (rule b(5))
    show "distinct (pre @ ?newp # post)" using di new_notin by auto
  qed (use b gm ga pk' sg' live' so' in simp_all)
  have "int (length (pre @ ?newp # post)) \<le> main_count g + aux_count g"
    using le by (simp add: gm ga)
  then have "follow g (head_ptr g) (nat (main_count g + aux_count g)) = Some (pre @ ?newp # post)"
    by (intro seg_follow[OF sg']) linarith
  then show "logical_list g = Some (pre @ ?newp # post)" by (simp add: logical_list_def)
qed

section \<open>insert keeps the index well-formed\<close>

lemma finish_wf:
  assumes "wf g"
  shows "\<exists>g'. finish g = (g', Inr ()) \<and> wf g'"
proof (cases "aux_count g > int (ilog2 (nat (max 1 (main_count g + 1))))")
  case True
  from wf_logical[OF assms] obtain ps where "logical_list g = Some ps" by blast
  from reorganize_wf[OF assms this] obtain g' where "sf_reorganize g = Inr g'" "wf g'" by blast
  with True show ?thesis by (simp add: finish_def sf_maybe_reorg_def Let_def)
next
  case False
  with assms show ?thesis by (simp add: finish_def sf_maybe_reorg_def Let_def)
qed

text \<open>
  The walk of step 5 along a segment: it stops at the first entry whose key is not
  below the new key, with the entry before it as predecessor.
\<close>

lemma ins_walk_ok:
  assumes "0 \<le> main_count f" "0 \<le> aux_count f"
    "main_count f + aux_count f \<le> int (length (ents f))"
  shows "seg f c post 0 \<Longrightarrow>
    \<exists>post1 post2. post = post1 @ post2 \<and> (\<forall>p\<in>set post1. key_at f p < k)
       \<and> (post2 \<noteq> [] \<longrightarrow> k \<le> key_at f (hd post2))
       \<and> ins_walk f (main_count f) k prev c =
           Some (Inr (if post1 = [] then prev else last post1,
                      if post2 = [] then 0 else hd post2))"
proof (induction post arbitrary: c prev)
  case Nil
  then have "ins_walk f (main_count f) k prev c = Some (Inr (prev, 0))"
    by (subst ins_walk.simps) (simp add: is_end_def)
  then show ?case by simp
next
  case (Cons p qs)
  then have c: "c = p" "p \<noteq> 0" "valid_ptr f p" "\<not> deleted (ent_at f p)"
    and rest: "seg f (next_ptr (ent_at f p)) qs 0" by auto
  from read_valid[OF c(3) assms] obtain ia ix where
    rd: "loc p = Inr (ia, ix)" "sf_read f ia ix (main_count f) = Inr (ent_at f p)" by blast
  show ?case
  proof (cases "key_at f p < k")
    case True
    have st: "ins_walk f (main_count f) k prev c =
              ins_walk f (main_count f) k p (next_ptr (ent_at f p))"
      using c rd True by (subst ins_walk.simps) (simp add: is_end_def key_at_def)
    from Cons.IH[OF rest, of p] obtain q1 q2 where
      q: "qs = q1 @ q2" "\<forall>x\<in>set q1. key_at f x < k" "q2 \<noteq> [] \<longrightarrow> k \<le> key_at f (hd q2)"
      "ins_walk f (main_count f) k p (next_ptr (ent_at f p)) =
         Some (Inr (if q1 = [] then p else last q1, if q2 = [] then 0 else hd q2))"
      by blast
    show ?thesis
    proof (rule exI[of _ "p # q1"], rule exI[of _ q2], intro conjI)
      show "p # qs = (p # q1) @ q2" using q(1) by simp
      show "\<forall>x\<in>set (p # q1). key_at f x < k" using q(2) True by simp
      show "q2 \<noteq> [] \<longrightarrow> k \<le> key_at f (hd q2)" by (rule q(3))
      show "ins_walk f (main_count f) k prev c =
            Some (Inr (if p # q1 = [] then prev else last (p # q1), if q2 = [] then 0 else hd q2))"
        unfolding st q(4) by simp
    qed
  next
    case False
    have st: "ins_walk f (main_count f) k prev c = Some (Inr (prev, p))"
      using c rd False by (subst ins_walk.simps) (simp add: is_end_def key_at_def)
    show ?thesis
    proof (rule exI[of _ "[]"], rule exI[of _ "p # qs"], intro conjI)
      show "ins_walk f (main_count f) k prev c =
            Some (Inr (if [] = [] then prev else last [], if p # qs = [] then 0 else hd (p # qs)))"
        unfolding st by simp
    qed (use False in simp_all)
  qed
qed

text \<open>Step 6 writes the file that \<open>splice_wf\<close> describes.\<close>

lemma ins_splice_ok:
  assumes w: "wf f" and lt: "main_count f + aux_count f < int (length (ents f))"
    and ll: "logical_list f = Some (pre @ post)"
    and pk: "packable e"
    and lo: "\<forall>p\<in>set pre. key_at f p \<le> key e" and hi: "\<forall>p\<in>set post. key e \<le> key_at f p"
  shows "\<exists>g. ins_splice f e (aux_count f + 1) (- aux_count f - 2) (main_count f)
                 (aux_count f + 1) (head_ptr f)
                 (if pre = [] then 0 else last pre) (if post = [] then 0 else hd post)
               = finish g \<and> wf g"
proof -
  note b = wf_basic[OF w]
  let ?m = "main_count f" and ?a = "aux_count f"
  let ?N = "nat (?m + ?a)"
  let ?cur = "if post = [] then 0 else hd post"
  let ?e' = "e \<lparr> next_ptr := ?cur \<rparr>"
  let ?E1 = "(ents f)[?N := ?e']"
  let ?f2 = "f \<lparr> ents := ?E1 \<rparr>"
  have N: "?N < length (ents f)" using lt b by linarith
  have w1: "sf_write f True (?a + 1) ?e' ?m = Inr ?f2"
    using pk b N by (simp add: sf_write_def slot_no_def put_def Let_def)
  show ?thesis
  proof (cases "pre = []")
    case True
    let ?g = "hdr_set ?f2 ?m (?a + 1) (- ?a - 2)"
    have "wf ?g"
      by (rule splice_wf(1)[OF w lt ll pk lo hi]) (simp_all add: True Let_def)
    moreover have "ins_splice f e (?a + 1) (- ?a - 2) ?m (?a + 1) (head_ptr f) 0 ?cur = finish ?g"
      using w1 by (simp add: ins_splice_def)
    ultimately show ?thesis using True by auto
  next
    case False
    let ?prev = "last pre"
    let ?prev' = "(ent_at f ?prev) \<lparr> next_ptr := - ?a - 2 \<rparr>"
    from wf_logical[OF w] obtain ps0 where
      ps0: "seg f (head_ptr f) ps0 0" "logical_list f = Some ps0" by blast
    with ll have sg: "seg f (head_ptr f) (pre @ post) 0" by simp
    have pv: "valid_ptr f ?prev" using seg_valid[OF sg, of ?prev] False by simp
    then have pnz: "?prev \<noteq> 0" using valid_ptr_nz by blast
    have b2: "0 \<le> main_count ?f2" "0 \<le> aux_count ?f2"
      "main_count ?f2 + aux_count ?f2 \<le> int (length (ents ?f2))"
      using b by simp_all
    have pv2: "valid_ptr ?f2 ?prev" using pv by (simp add: valid_ptr_def)
    from read_valid[OF pv2 b2] obtain ia ix where
      rd: "loc ?prev = Inr (ia, ix)" "sf_read ?f2 ia ix ?m = Inr (ent_at ?f2 ?prev)"
      "nat (slot_no ia ix ?m - 1) = pos_of ?f2 ?prev" "1 \<le> slot_no ia ix ?m"
      by auto
    have pp: "pos_of ?f2 ?prev = pos_of f ?prev" by (simp add: pos_of_def)
    have pl: "pos_of f ?prev < ?N" using pos_valid_less(1)[OF w pv] .
    have e2: "ent_at ?f2 ?prev = ent_at f ?prev"
      using pl by (simp add: ent_at_def pp)
    let ?f3 = "?f2 \<lparr> ents := ?E1[pos_of f ?prev := ?prev'] \<rparr>"
    have pkp: "packable ?prev'" using packable_ent_at[OF w pv] by simp
    have w2: "sf_write ?f2 ia ix ?prev' ?m = Inr ?f3"
      using pkp rd(3,4) pl N by (simp add: sf_write_def put_def Let_def pp)
    let ?g = "hdr_set ?f3 ?m (?a + 1) (head_ptr f)"
    have "wf ?g"
      by (rule splice_wf(1)[OF w lt ll pk lo hi]) (simp_all add: False Let_def)
    moreover have "ins_splice f e (?a + 1) (- ?a - 2) ?m (?a + 1) (head_ptr f) ?prev ?cur
                   = finish ?g"
      using w1 pnz rd(1,2) e2 w2 by (simp add: ins_splice_def)
    ultimately show ?thesis using False by auto
  qed
qed

text \<open>Steps 5 and 6 together, from any point of the list that the new key is not below.\<close>

lemma walk_splice:
  assumes w: "wf f" and lt: "main_count f + aux_count f < int (length (ents f))"
    and ll: "logical_list f = Some (pre0 @ rest)"
    and pk: "packable e"
    and lo: "\<forall>p\<in>set pre0. key_at f p \<le> key e"
  shows "\<exists>g. (case ins_walk f (main_count f) (key e) (if pre0 = [] then 0 else last pre0)
                      (if rest = [] then 0 else hd rest) of
                None \<Rightarrow> None
              | Some (Inl err) \<Rightarrow> Some (f, Inl err)
              | Some (Inr (pp, cp)) \<Rightarrow>
                  Some (ins_splice f e (aux_count f + 1) (- aux_count f - 2) (main_count f)
                          (aux_count f + 1) (head_ptr f) pp cp))
             = Some (finish g) \<and> wf g"
proof -
  note b = wf_basic[OF w]
  from wf_logical[OF w] obtain ps0 where
    ps0: "seg f (head_ptr f) ps0 0" "sorted (map (key_at f) ps0)" "logical_list f = Some ps0"
    by blast
  with ll have sg: "seg f (head_ptr f) (pre0 @ rest) 0"
    and so: "sorted (map (key_at f) (pre0 @ rest))" by simp_all
  from sg obtain c where c: "seg f c rest 0" unfolding seg_append by blast
  then have ceq: "c = (if rest = [] then 0 else hd rest)" by (cases rest) auto
  let ?prev0 = "if pre0 = [] then 0 else last pre0"
  from ins_walk_ok[OF b(1,2,3) c, of "key e" ?prev0] obtain post1 post2 where
    sp: "rest = post1 @ post2" "\<forall>p\<in>set post1. key_at f p < key e"
    "post2 \<noteq> [] \<longrightarrow> key e \<le> key_at f (hd post2)"
    "ins_walk f (main_count f) (key e) ?prev0 c =
       Some (Inr (if post1 = [] then ?prev0 else last post1, if post2 = [] then 0 else hd post2))"
    by blast
  let ?pre = "pre0 @ post1"
  have ll': "logical_list f = Some (?pre @ post2)" using ll sp(1) by simp
  have lo': "\<forall>p\<in>set ?pre. key_at f p \<le> key e" using lo sp(2) by auto
  have hi': "\<forall>p\<in>set post2. key e \<le> key_at f p"
  proof (cases post2)
    case Nil then show ?thesis by simp
  next
    case (Cons q qs)
    from so have "sorted (map (key_at f) (q # qs))"
      unfolding sp(1) Cons by (simp add: sorted_append)
    then have "\<forall>x\<in>set (q # qs). key_at f q \<le> key_at f x" by auto
    with sp(3) Cons show ?thesis by auto
  qed
  have pp: "(if post1 = [] then ?prev0 else last post1) = (if ?pre = [] then 0 else last ?pre)"
    by simp
  from ins_splice_ok[OF w lt ll' pk lo' hi'] obtain g where
    g: "ins_splice f e (aux_count f + 1) (- aux_count f - 2) (main_count f) (aux_count f + 1)
          (head_ptr f) (if ?pre = [] then 0 else last ?pre) (if post2 = [] then 0 else hd post2)
        = finish g" "wf g" by blast
  show ?thesis
    using g sp(4) unfolding ceq[symmetric] pp by (intro exI[of _ g]) simp
qed

lemma write_new_ok:
  assumes "wf f" "main_count f + aux_count f < int (length (ents f))" "packable e"
  shows "sf_write f True (aux_count f + 1) e (main_count f)
         = Inr (f \<lparr> ents := (ents f)[nat (main_count f + aux_count f) := e] \<rparr>)"
proof -
  note b = wf_basic[OF assms(1)]
  have "nat (main_count f + aux_count f) < length (ents f)" using assms(2) b by linarith
  then show ?thesis
    using assms(3) b by (simp add: sf_write_def slot_no_def put_def Let_def)
qed

text \<open>Steps 4 to 7 of insert, from a live predecessor in D with a smaller key, or none.\<close>

lemma ins_link_ok:
  assumes w: "wf f" and lt: "main_count f + aux_count f < int (length (ents f))"
    and pk: "packable e" and hne: "head_ptr f \<noteq> 0" and jm: "j \<le> main_count f"
    and jl: "1 \<le> j \<longrightarrow> \<not> deleted (ents f ! nat (j - 1)) \<and> key (ents f ! nat (j - 1)) < key e"
  shows "\<exists>g. ins_link f e (aux_count f + 1) (- aux_count f - 2) (main_count f)
                (aux_count f + 1) (head_ptr f) j = Some (finish g) \<and> wf g"
proof -
  note b = wf_basic[OF w]
  from wf_logical[OF w] obtain ps where
    ps: "seg f (head_ptr f) ps 0" "distinct ps" "set ps = set (live_ptrs f)"
    "sorted (map (key_at f) ps)" "logical_list f = Some ps" by blast
  show ?thesis
  proof (cases "j \<ge> 1")
    case True
    have vj: "valid_ptr f j" using True jm by (simp add: valid_ptr_def)
    have ej: "ent_at f j = ents f ! nat (j - 1)" using True by (rule ent_at_D)
    have "j \<in> set ps" using vj jl True ej unfolding ps(3) set_live_ptrs by simp
    then obtain pre0 rest where sp: "ps = pre0 @ j # rest" by (auto dest: split_list)
    have rd: "sf_read f False j (main_count f) = Inr (ents f ! nat (j - 1))"
      using True jm b by (intro read_D) auto
    from ps(1) have "seg f (next_ptr (ent_at f j)) rest 0"
      unfolding sp seg_append by auto
    then have nx: "next_ptr (ents f ! nat (j - 1)) = (if rest = [] then 0 else hd rest)"
      unfolding ej by (cases rest) auto
    have ll: "logical_list f = Some ((pre0 @ [j]) @ rest)" using ps(5) sp by simp
    have kj: "key_at f j < key e" using jl True ej by (simp add: key_at_def)
    have "\<forall>p\<in>set pre0. key_at f p \<le> key_at f j"
      using ps(4) unfolding sp by (simp add: sorted_append)
    with kj have lo: "\<forall>p\<in>set (pre0 @ [j]). key_at f p \<le> key e" by auto
    from walk_splice[OF w lt ll pk lo] obtain g where
      g: "(case ins_walk f (main_count f) (key e) j (if rest = [] then 0 else hd rest) of
             None \<Rightarrow> None
           | Some (Inl err) \<Rightarrow> Some (f, Inl err)
           | Some (Inr (pp, cp)) \<Rightarrow>
               Some (ins_splice f e (aux_count f + 1) (- aux_count f - 2) (main_count f)
                       (aux_count f + 1) (head_ptr f) pp cp))
          = Some (finish g)" "wf g" by auto
    have "ins_link f e (aux_count f + 1) (- aux_count f - 2) (main_count f)
            (aux_count f + 1) (head_ptr f) j = Some (finish g)"
      using True rd g(1) unfolding nx[symmetric]
      by (simp add: ins_link_def dptr_def)
    with g(2) show ?thesis by blast
  next
    case False
    from ps(1) hne have ne: "ps \<noteq> []" by (cases ps) auto
    with ps(1) have hh: "head_ptr f = hd ps" by (cases ps) auto
    have vh: "valid_ptr f (head_ptr f)" using seg_valid[OF ps(1), of "hd ps"] ne hh by simp
    from read_valid[OF vh b(1,2,3)] obtain ha hi where
      rd: "loc (head_ptr f) = Inr (ha, hi)"
      "sf_read f ha hi (main_count f) = Inr (ent_at f (head_ptr f))" by blast
    show ?thesis
    proof (cases "key e \<le> key (ent_at f (head_ptr f))")
      case ke: True
      have ll: "logical_list f = Some ([] @ ps)" using ps(5) by simp
      have "\<forall>x\<in>set ps. key_at f (hd ps) \<le> key_at f x"
        using ps(4) ne by (cases ps) auto
      with ke hh have hi': "\<forall>p\<in>set ps. key e \<le> key_at f p" by (auto simp: key_at_def)
      from ins_splice_ok[OF w lt ll pk _ hi'] ne hh obtain g where
        g: "ins_splice f e (aux_count f + 1) (- aux_count f - 2) (main_count f)
              (aux_count f + 1) (head_ptr f) 0 (head_ptr f) = finish g" "wf g" by auto
      have w1: "sf_write f True (aux_count f + 1) (e \<lparr> next_ptr := head_ptr f \<rparr>) (main_count f)
                = Inr (f \<lparr> ents := (ents f)[nat (main_count f + aux_count f)
                                        := e \<lparr> next_ptr := head_ptr f \<rparr>] \<rparr>)"
        using pk by (intro write_new_ok[OF w lt]) simp
      have "ins_link f e (aux_count f + 1) (- aux_count f - 2) (main_count f)
              (aux_count f + 1) (head_ptr f) j
            = Some (ins_splice f e (aux_count f + 1) (- aux_count f - 2) (main_count f)
                      (aux_count f + 1) (head_ptr f) 0 (head_ptr f))"
        using False rd ke w1 by (simp add: ins_link_def ins_splice_def)
      with g show ?thesis by auto
    next
      case kn: False
      have ll: "logical_list f = Some ([] @ ps)" using ps(5) by simp
      from walk_splice[OF w lt ll pk] ne hh obtain g where
        g: "(case ins_walk f (main_count f) (key e) 0 (head_ptr f) of
               None \<Rightarrow> None
             | Some (Inl err) \<Rightarrow> Some (f, Inl err)
             | Some (Inr (pp, cp)) \<Rightarrow>
                 Some (ins_splice f e (aux_count f + 1) (- aux_count f - 2) (main_count f)
                         (aux_count f + 1) (head_ptr f) pp cp))
            = Some (finish g)" "wf g" by auto
      have "ins_link f e (aux_count f + 1) (- aux_count f - 2) (main_count f)
              (aux_count f + 1) (head_ptr f) j = Some (finish g)"
        using False rd kn g(1) by (simp add: ins_link_def)
      with g(2) show ?thesis by blast
    qed
  qed
qed

text \<open>
  insert on a well-formed file: it returns, and the file is well-formed again.  An
  entry whose key or RID does not fit its field is refused before anything is written.
\<close>

lemma sf_insert_wf:
  assumes w: "wf f" and pk: "packable e0"
  shows "\<exists>g. sf_insert f e0 = Some (g, Inr ()) \<and> wf g"
proof -
  note b = wf_basic[OF w]
  let ?m = "main_count f" and ?a = "aux_count f" and ?h = "head_ptr f"
  let ?N = "nat (?m + ?a)"
  let ?e = "e0 \<lparr> next_ptr := 0 \<rparr>"
  let ?f1 = "f \<lparr> ents := put ?N ?e (ents f) \<rparr>"
  have pke: "packable ?e" using pk by simp
  note w1 = wf_append_slot(1)[OF w pke] and ll1 = wf_append_slot(2)[OF w pke]
    and lt1 = wf_append_slot(3)[OF w pke]
  have wr: "sf_write f True (?a + 1) ?e ?m = Inr ?f1"
    using pke b by (simp add: sf_write_def slot_no_def Let_def)
  have ap: "aptr (?a + 1) = Inr (- ?a - 2)" using b by (simp add: aptr_def)
  have hd1: "main_count ?f1 = ?m" "aux_count ?f1 = ?a" "head_ptr ?f1 = ?h" by simp_all
  have "\<exists>g. sf_insert f e0 = Some (finish g) \<and> wf g"
  proof (cases "?h = 0")
    case True
    from wf_logical[OF w1] obtain ps where
      ps: "seg ?f1 (head_ptr ?f1) ps 0" "logical_list ?f1 = Some ps" by blast
    from ps(1) True have "ps = []" by (cases ps) auto
    with ps(2) have ll: "logical_list ?f1 = Some ([] @ [])" by simp
    let ?g = "hdr_set ?f1 ?m (?a + 1) (- ?a - 2)"
    have N: "?N \<le> length (ents f)" using b by linarith
    have "(put ?N ?e (ents f))[?N := ?e \<lparr> next_ptr := 0 \<rparr>] = put ?N ?e (ents f)"
      using nth_put_same[OF N, of ?e] by (simp add: list_update_same_conv length_put)
    then have "wf ?g"
      by (intro splice_wf(1)[OF w1 lt1 ll pke]) (simp_all add: Let_def)
    moreover have "sf_insert f e0 = Some (finish ?g)"
      using True wr ap by (simp add: sf_insert_def Let_def)
    ultimately show ?thesis by blast
  next
    case False
    from sf_lb_ok[OF w1, of "key ?e"] obtain lb where
      lb: "sf_lb ?f1 (key ?e) = Inr lb" "lb \<le> ?m + 1"
      "\<forall>i. 1 \<le> i \<and> i < lb \<longrightarrow> key (ents ?f1 ! nat (i - 1)) < key ?e"
      by auto
    note b1 = wf_basic[OF w1]
    have "min (lb - 1) ?m \<le> main_count ?f1" by simp
    from back_scan_ok[OF b1(2,3) this, of ?m] obtain j where
      j: "back_scan ?f1 ?m (min (lb - 1) ?m) = Inr j" "j \<le> min (lb - 1) ?m"
      "1 \<le> j \<longrightarrow> \<not> deleted (ents ?f1 ! nat (j - 1))" by blast
    have jl: "1 \<le> j \<longrightarrow> \<not> deleted (ents ?f1 ! nat (j - 1))
                \<and> key (ents ?f1 ! nat (j - 1)) < key ?e"
      using j(2,3) lb(3) by auto
    have jm: "j \<le> main_count ?f1" using j(2) by simp
    have hne: "head_ptr ?f1 \<noteq> 0" using False by simp
    from ins_link_ok[OF w1 lt1 pke hne jm jl] obtain g where
      g: "ins_link ?f1 ?e (?a + 1) (- ?a - 2) ?m (?a + 1) ?h j = Some (finish g)" "wf g"
      unfolding hd1 by blast
    have "sf_insert f e0 = Some (finish g)"
      using False wr ap lb(1) j(1) g(1) by (simp add: sf_insert_def Let_def)
    with g(2) show ?thesis by blast
  qed
  then obtain g where g: "sf_insert f e0 = Some (finish g)" "wf g" by blast
  from finish_wf[OF g(2)] obtain g' where "finish g = (g', Inr ())" "wf g'" by blast
  with g(1) show ?thesis by simp
qed

lemma sf_insert_unpackable:
  assumes "\<not> packable e0"
  shows "sf_insert f e0 = Some (f, Inl StructError)"
  using assms by (simp add: sf_insert_def sf_write_def Let_def)

section \<open>Unlinking an entry from the logical list\<close>

text \<open>
  The file after delete\_key has removed the entry \<open>c\<close> that follows \<open>pre\<close> in the
  logical list: the last entry of \<open>pre\<close> (or the head) points to the successor of
  \<open>c\<close>, and \<open>c\<close> is a tombstone.
\<close>

lemma unlink_wf:
  assumes w: "wf f"
    and ll: "logical_list f = Some (pre @ c # qs)"
    and gm: "main_count g = main_count f" and ga: "aux_count g = aux_count f"
    and gh: "head_ptr g = (if pre = [] then next_ptr (ent_at f c) else head_ptr f)"
    and ge: "ents g =
      (let E1 = (if pre = [] then ents f
                 else (ents f)[pos_of f (last pre) :=
                        (ent_at f (last pre)) \<lparr> next_ptr := next_ptr (ent_at f c) \<rparr>])
       in E1[pos_of f c := (ent_at f c) \<lparr> next_ptr := - 1 \<rparr>])"
  shows "wf g" and "logical_list g = Some (pre @ qs)"
proof -
  note b = wf_basic[OF w]
  let ?nxt = "next_ptr (ent_at f c)"
  let ?prev = "last pre"
  let ?prev' = "(ent_at f ?prev) \<lparr> next_ptr := ?nxt \<rparr>"
  let ?tomb = "(ent_at f c) \<lparr> next_ptr := - 1 \<rparr>"
  from wf_logical[OF w] obtain ps0 where
    ps0: "seg f (head_ptr f) ps0 0" "distinct ps0" "set ps0 = set (live_ptrs f)"
    "sorted (map (key_at f) ps0)" "logical_list f = Some ps0"
    "int (length ps0) \<le> main_count f + aux_count f" by blast
  from ps0(5) ll have eq: "ps0 = pre @ c # qs" by simp
  note sg = ps0(1)[unfolded eq] and di = ps0(2)[unfolded eq] and li = ps0(3)[unfolded eq]
    and so = ps0(4)[unfolded eq] and le = ps0(6)[unfolded eq]
  have val: "valid_ptr f p \<and> \<not> deleted (ent_at f p)" if "p \<in> set (pre @ c # qs)" for p
    using seg_valid[OF sg that] .
  have vc: "valid_ptr f c" using val[of c] by simp
  have vg: "valid_ptr g p \<longleftrightarrow> valid_ptr f p" for p
    by (rule valid_ptr_cong[OF gm ga])
  have pg: "pos_of g p = pos_of f p" for p by (rule pos_of_cong[OF gm])
  have pl: "pos_of f p < length (ents f)" if "valid_ptr f p" for p
    using pos_valid_less(2)[OF w that] .
  have lenE: "length (ents g) = length (ents f)"
    unfolding ge by (simp add: Let_def)
  have prev_valid: "valid_ptr f ?prev" if "pre \<noteq> []"
    using val[of ?prev] that by simp
  have prev_c: "?prev \<noteq> c" if "pre \<noteq> []"
  proof -
    have "?prev \<in> set pre" using that by simp
    with di show ?thesis by auto
  qed
  have pos_pc: "pos_of f ?prev \<noteq> pos_of f c" if "pre \<noteq> []"
    using pos_of_inj[OF prev_valid[OF that] vc b(1)] prev_c[OF that] by blast
  have e_c: "ent_at g c = ?tomb"
    using pl[OF vc] by (simp add: ent_at_def pg ge Let_def)
  have e_prev: "ent_at g ?prev = ?prev'" if "pre \<noteq> []"
    using pl[OF prev_valid[OF that]] pos_pc[OF that] that
    by (simp add: ent_at_def pg ge Let_def)
  have e_other: "ent_at g p = ent_at f p"
    if "valid_ptr f p" "p \<noteq> c" "pre \<noteq> [] \<longrightarrow> p \<noteq> ?prev" for p
  proof -
    have 1: "pos_of f p \<noteq> pos_of f c"
      using pos_of_inj[OF that(1) vc b(1)] that(2) by blast
    show ?thesis
    proof (cases "pre = []")
      case True
      then show ?thesis using 1 by (simp add: ent_at_def pg ge Let_def)
    next
      case False
      with that have "p \<noteq> ?prev" by simp
      with pos_of_inj[OF that(1) prev_valid[OF False] b(1)] have "pos_of f p \<noteq> pos_of f ?prev"
        by blast
      then show ?thesis using 1 False by (simp add: ent_at_def pg ge Let_def)
    qed
  qed
  have key_same: "key_at g p = key_at f p" if "valid_ptr f p" for p
  proof (cases "p = c")
    case True then show ?thesis using e_c by (simp add: key_at_def)
  next
    case nc: False
    show ?thesis
    proof (cases "pre \<noteq> [] \<and> p = ?prev")
      case True then show ?thesis using e_prev by (simp add: key_at_def)
    next
      case False then show ?thesis using e_other[OF that nc] by (auto simp: key_at_def)
    qed
  qed
  \<comment> \<open>what follows \<open>c\<close>\<close>
  from sg obtain c1 where c1: "seg f (head_ptr f) pre c1" "seg f c1 (c # qs) 0"
    unfolding seg_append by blast
  then have c1c: "c1 = c" and sq: "seg f ?nxt qs 0" by auto
  have nxt_ok: "?nxt \<noteq> - 1"
  proof (cases qs)
    case Nil with sq show ?thesis by simp
  next
    case (Cons q qs')
    with sq have "?nxt = q" "valid_ptr f q" by auto
    then show ?thesis using valid_ptr_nz by auto
  qed
  have c_notin: "c \<notin> set pre" "c \<notin> set qs" using di by auto
  have sq': "seg g ?nxt qs 0"
  proof (rule seg_frame[OF sq])
    fix p assume p: "p \<in> set qs" "valid_ptr f p"
    have "p \<noteq> c" using p(1) c_notin by blast
    moreover have "pre \<noteq> [] \<longrightarrow> p \<noteq> ?prev"
    proof
      assume "pre \<noteq> []"
      then have "?prev \<in> set pre" by simp
      with di p(1) show "p \<noteq> ?prev" by auto
    qed
    ultimately show "valid_ptr g p \<and> ent_at g p = ent_at f p"
      using e_other[OF p(2)] vg p(2) by simp
  qed
  have sg': "seg g (head_ptr g) (pre @ qs) 0"
  proof (cases "pre = []")
    case True
    with sq' gh show ?thesis by simp
  next
    case False
    then obtain pre0 pv where pre: "pre = pre0 @ [pv]" by (cases pre rule: rev_cases) auto
    have lp: "?prev = pv" by (simp add: pre)
    have dp: "pv \<notin> set pre0" using di by (simp add: pre)
    from c1(1) c1c have "seg f (head_ptr f) pre0 pv" unfolding pre seg_snoc by simp
    then have s1: "seg g (head_ptr f) pre0 pv"
    proof (rule seg_frame)
      fix p assume p: "p \<in> set pre0" "valid_ptr f p"
      then have "p \<noteq> ?prev" using dp lp by blast
      moreover have "p \<noteq> c" using p(1) c_notin(1) by (auto simp: pre)
      ultimately show "valid_ptr g p \<and> ent_at g p = ent_at f p"
        using e_other[OF p(2)] vg p(2) by simp
    qed
    have s2: "seg g pv [pv] ?nxt"
      using prev_valid[OF False] vg e_prev[OF False] nxt_ok valid_ptr_nz[OF prev_valid[OF False]]
      unfolding lp by (simp add: deleted_def DELETED_def)
    have "seg g (head_ptr f) (pre0 @ [pv] @ qs) 0"
      unfolding seg_append using s1 s2 sq' by blast
    then show ?thesis using False gh by (simp add: pre)
  qed
  have live': "set (pre @ qs) = set (live_ptrs g)"
  proof (intro set_eqI iffI)
    fix p assume "p \<in> set (pre @ qs)"
    then show "p \<in> set (live_ptrs g)"
      using seg_valid[OF sg', of p] by (simp add: set_live_ptrs)
  next
    fix p assume "p \<in> set (live_ptrs g)"
    then have p: "valid_ptr f p" "\<not> deleted (ent_at g p)" by (auto simp: set_live_ptrs vg)
    have nc: "p \<noteq> c" using p(2) e_c by (auto simp: deleted_def DELETED_def)
    show "p \<in> set (pre @ qs)"
    proof (cases "pre \<noteq> [] \<and> p = ?prev")
      case True then show ?thesis by simp
    next
      case False
      then have "\<not> deleted (ent_at f p)" using p(2) e_other[OF p(1) nc] by auto
      then have "p \<in> set (live_ptrs f)" using p(1) by (simp add: set_live_ptrs)
      then show ?thesis using li nc by auto
    qed
  qed
  have kk: "map (key_at g) (pre @ qs) = map (key_at f) (pre @ qs)"
    using val key_same by (intro map_cong) auto
  have so': "sorted (map (key_at g) (pre @ qs))"
    unfolding kk using so by (auto simp: sorted_append)
  have tk: "map key (take (nat (main_count f)) (ents g)) = map key (take (nat (main_count f)) (ents f))"
  proof (rule nth_equalityI)
    show "length (map key (take (nat (main_count f)) (ents g)))
          = length (map key (take (nat (main_count f)) (ents f)))"
      by (simp add: lenE)
  next
    fix i assume "i < length (map key (take (nat (main_count f)) (ents g)))"
    then have i: "i < nat (main_count f)" "i < length (ents f)" by (simp_all add: lenE)
    have "key (ents g ! i) = key (ents f ! i)"
    proof (cases "i = pos_of f c")
      case True
      then show ?thesis using i by (simp add: ge Let_def ent_at_def)
    next
      case nc: False
      show ?thesis
      proof (cases "pre \<noteq> [] \<and> i = pos_of f ?prev")
        case True
        then show ?thesis using i nc by (simp add: ge Let_def ent_at_def)
      next
        case False
        then show ?thesis using i nc by (auto simp: ge Let_def)
      qed
    qed
    then show "map key (take (nat (main_count f)) (ents g)) ! i
               = map key (take (nat (main_count f)) (ents f)) ! i"
      using i by (simp add: lenE)
  qed
  have pk': "list_all packable (ents g)"
  proof -
    have pt: "packable ?tomb" using packable_ent_at[OF w vc] by simp
    show ?thesis
    proof (cases "pre = []")
      case True
      from list_all_update[OF b(4) pt] show ?thesis using True by (simp add: ge Let_def)
    next
      case False
      have "packable ?prev'" using packable_ent_at[OF w prev_valid[OF False]] by simp
      from list_all_update[OF list_all_update[OF b(4) this] pt]
      show ?thesis using False by (simp add: ge Let_def)
    qed
  qed
  show "wf g"
  proof (rule wfI[where ps="pre @ qs"])
    show "main_count g + aux_count g \<le> int (length (ents g))"
      unfolding gm ga lenE by (rule b(3))
    show "sorted (map key (take (nat (main_count g)) (ents g)))"
      unfolding gm tk by (rule b(5))
    show "distinct (pre @ qs)" using di by auto
  qed (use b gm ga pk' sg' live' so' in simp_all)
  have "int (length (pre @ qs)) \<le> main_count g + aux_count g"
    using le by (simp add: gm ga)
  then have "follow g (head_ptr g) (nat (main_count g + aux_count g)) = Some (pre @ qs)"
    by (intro seg_follow[OF sg']) linarith
  then show "logical_list g = Some (pre @ qs)" by (simp add: logical_list_def)
qed

section \<open>delete\_key keeps the index well-formed\<close>

text \<open>
  Reading and writing through a valid pointer, in a file \<open>g\<close> that has the entries
  of \<open>G\<close> (the walk of delete\_key carries the head in a variable, not in the file).
\<close>

lemma ptr_io:
  assumes "valid_ptr G p" "0 \<le> main_count G" "0 \<le> aux_count G"
    "main_count G + aux_count G \<le> int (length (ents G))" "ents g = ents G"
  shows "\<exists>ia ix. loc p = Inr (ia, ix)
           \<and> sf_read g ia ix (main_count G) = Inr (ent_at G p)
           \<and> (\<forall>e'. packable e' \<longrightarrow>
                 sf_write g ia ix e' (main_count G)
                 = Inr (g \<lparr> ents := (ents g)[pos_of G p := e'] \<rparr>))"
proof -
  from read_valid[OF assms(1-4)] obtain ia ix where
    rd: "loc p = Inr (ia, ix)" "sf_read G ia ix (main_count G) = Inr (ent_at G p)"
    "nat (slot_no ia ix (main_count G) - 1) = pos_of G p" "1 \<le> slot_no ia ix (main_count G)"
    by blast
  have "int (pos_of G p) < main_count G + aux_count G"
    by (rule pos_of_bound[OF assms(1-3)])
  then have pl: "pos_of G p < length (ents g)" using assms(4) unfolding assms(5) by linarith
  have "sf_read g ia ix (main_count G) = sf_read G ia ix (main_count G)"
    unfolding sf_read_def assms(5) ..
  then have r: "sf_read g ia ix (main_count G) = Inr (ent_at G p)"
    using rd(2) by simp
  have "sf_write g ia ix e' (main_count G) = Inr (g \<lparr> ents := (ents g)[pos_of G p := e'] \<rparr>)"
    if "packable e'" for e'
    using that rd(3,4) pl by (simp add: sf_write_def put_def Let_def)
  with rd(1) r show ?thesis by blast
qed

lemma del_walk_ok:
  "main_count g = m \<Longrightarrow> aux_count g = a \<Longrightarrow> wf (hdr_set g m a hh) \<Longrightarrow>
   logical_list (hdr_set g m a hh) = Some (pre @ post) \<Longrightarrow>
   \<exists>g' n' h'. del_walk g m k r (if pre = [] then 0 else last pre)
                 (if post = [] then 0 else hd post) n hh = Some (g', Inr (n', h'))
     \<and> main_count g' = m \<and> aux_count g' = a \<and> wf (hdr_set g' m a h')"
proof (induction post arbitrary: g hh pre n)
  case Nil
  have "del_walk g m k r (if pre = [] then 0 else last pre) 0 n hh = Some (g, Inr (n, hh))"
    by (subst del_walk.simps) (simp add: is_end_def)
  with Nil show ?case by auto
next
  case (Cons c qs)
  let ?G = "hdr_set g m a hh"
  let ?prev = "if pre = [] then 0 else last pre"
  note gm = Cons.prems(1) and ga = Cons.prems(2) and w = Cons.prems(3) and ll = Cons.prems(4)
  note b = wf_basic[OF w]
  from wf_logical[OF w] obtain ps0 where
    ps0: "seg ?G (head_ptr ?G) ps0 0" "distinct ps0" "logical_list ?G = Some ps0" by blast
  from ps0(3) ll have eq: "ps0 = pre @ c # qs" by simp
  note sg = ps0(1)[unfolded eq] and di = ps0(2)[unfolded eq]
  have vc: "valid_ptr ?G c" using seg_valid[OF sg, of c] by simp
  then have cnz: "c \<noteq> 0" using valid_ptr_nz by blast
  from sg obtain c1 where "seg ?G c1 (c # qs) 0" unfolding seg_append by blast
  then have sq: "seg ?G (next_ptr (ent_at ?G c)) qs 0" by simp
  then have nx: "next_ptr (ent_at ?G c) = (if qs = [] then 0 else hd qs)" by (cases qs) auto
  have eg: "ents g = ents ?G" by simp
  have mG: "main_count ?G = m" by simp
  from ptr_io[OF vc b(1,2,3) eg] obtain ia ix where
    io: "loc c = Inr (ia, ix)" "sf_read g ia ix m = Inr (ent_at ?G c)"
    "\<And>e'. packable e' \<Longrightarrow> sf_write g ia ix e' m = Inr (g \<lparr> ents := (ents g)[pos_of ?G c := e'] \<rparr>)"
    unfolding mG by blast
  let ?node = "ent_at ?G c"
  let ?cur = "if c # qs = [] then 0 else hd (c # qs)"
  have cur: "?cur = c" by simp
  show ?case
  proof (cases "key ?node > k")
    case True
    have "del_walk g m k r ?prev c n hh = Some (g, Inr (n, hh))"
      using io(1,2) cnz True by (subst del_walk.simps) (simp add: is_end_def)
    with gm ga w show ?thesis unfolding cur by blast
  next
    case nk: False
    show ?thesis
    proof (cases "key ?node = k \<and> rid_matches r ?node")
      case False
      have st: "del_walk g m k r ?prev c n hh = del_walk g m k r c (next_ptr ?node) n hh"
        using io(1,2) cnz nk False by (subst del_walk.simps) (auto simp: is_end_def)
      have ll': "logical_list ?G = Some ((pre @ [c]) @ qs)" using ll by simp
      from Cons.IH[OF gm ga w ll', of n] obtain g' n' h' where
        "del_walk g m k r c (if qs = [] then 0 else hd qs) n hh = Some (g', Inr (n', h'))"
        "main_count g' = m" "aux_count g' = a" "wf (hdr_set g' m a h')" by auto
      with st nx show ?thesis unfolding cur by auto
    next
      case match: True
      let ?nxt = "next_ptr ?node"
      let ?tomb = "?node \<lparr> next_ptr := - 1 \<rparr>"
      have pkt: "packable ?tomb" using packable_ent_at[OF w vc] by simp
      \<comment> \<open>the unlinking\<close>
      have "\<exists>g1 h1. unlink g m hh ?prev ?nxt = Inr (g1, h1)
              \<and> main_count g1 = m \<and> aux_count g1 = a
              \<and> h1 = (if pre = [] then ?nxt else hh)
              \<and> ents g1 = (if pre = [] then ents g
                           else (ents g)[pos_of ?G (last pre) :=
                                  (ent_at ?G (last pre)) \<lparr> next_ptr := ?nxt \<rparr>])"
      proof (cases "pre = []")
        case True
        then show ?thesis using gm ga by (simp add: unlink_def)
      next
        case False
        have vp: "valid_ptr ?G (last pre)" using seg_valid[OF sg, of "last pre"] False by simp
        then have pnz: "last pre \<noteq> 0" using valid_ptr_nz by blast
        have pkp: "packable ((ent_at ?G (last pre)) \<lparr> next_ptr := ?nxt \<rparr>)"
          using packable_ent_at[OF w vp] by simp
        from ptr_io[OF vp b(1,2,3) eg] obtain pa pi where
          pio: "loc (last pre) = Inr (pa, pi)" "sf_read g pa pi m = Inr (ent_at ?G (last pre))"
          "\<And>e'. packable e' \<Longrightarrow>
              sf_write g pa pi e' m = Inr (g \<lparr> ents := (ents g)[pos_of ?G (last pre) := e'] \<rparr>)"
          unfolding mG by blast
        show ?thesis
          using False pnz pio(1,2) pio(3)[OF pkp] gm ga by (simp add: unlink_def)
      qed
      then obtain g1 h1 where
        u: "unlink g m hh ?prev ?nxt = Inr (g1, h1)" "main_count g1 = m" "aux_count g1 = a"
        "h1 = (if pre = [] then ?nxt else hh)"
        "ents g1 = (if pre = [] then ents g
                    else (ents g)[pos_of ?G (last pre) :=
                           (ent_at ?G (last pre)) \<lparr> next_ptr := ?nxt \<rparr>])"
        by blast
      \<comment> \<open>the tombstone\<close>
      let ?G1 = "hdr_set g1 m a hh"
      have vc1: "valid_ptr ?G1 c" using vc by (simp add: valid_ptr_def)
      have len1: "length (ents g1) = length (ents g)" using u(5) by simp
      have b1: "0 \<le> main_count ?G1" "0 \<le> aux_count ?G1"
        "main_count ?G1 + aux_count ?G1 \<le> int (length (ents ?G1))"
        using b len1 by simp_all
      have eg1: "ents g1 = ents ?G1" by simp
      have p1: "pos_of ?G1 c = pos_of ?G c" by (simp add: pos_of_def)
      from ptr_io[OF vc1 b1 eg1] pkt obtain ia' ix' where
        io1: "loc c = Inr (ia', ix')"
        "sf_write g1 ia' ix' ?tomb m = Inr (g1 \<lparr> ents := (ents g1)[pos_of ?G c := ?tomb] \<rparr>)"
        unfolding p1 by auto
      with io(1) have io1': "sf_write g1 ia ix ?tomb m
                             = Inr (g1 \<lparr> ents := (ents g1)[pos_of ?G c := ?tomb] \<rparr>)"
        by simp
      let ?g2 = "g1 \<lparr> ents := (ents g1)[pos_of ?G c := ?tomb] \<rparr>"
      let ?G2 = "hdr_set ?g2 m a h1"
      have w2: "wf ?G2"
        by (rule unlink_wf(1)[OF w ll]) (simp_all add: u Let_def)
      have ll2: "logical_list ?G2 = Some (pre @ qs)"
        by (rule unlink_wf(2)[OF w ll]) (simp_all add: u Let_def)
      have m2: "main_count ?g2 = m" "aux_count ?g2 = a" using u(2,3) by simp_all
      show ?thesis
      proof (cases "r = None")
        case False
        have "del_walk g m k r ?prev c n hh = Some (?g2, Inr (n + 1, h1))"
          using io(1,2) cnz nk match u(1) io1' False
          by (subst del_walk.simps) (simp add: is_end_def DELETED_def)
        with w2 m2 show ?thesis unfolding cur by blast
      next
        case True
        have st: "del_walk g m k r ?prev c n hh = del_walk ?g2 m k r ?prev ?nxt (n + 1) h1"
          using io(1,2) cnz nk match u(1) io1' True
          by (subst del_walk.simps) (simp add: is_end_def DELETED_def)
        from Cons.IH[OF m2 w2 ll2, of "n + 1"] obtain g' n' h' where
          "del_walk ?g2 m k r ?prev (if qs = [] then 0 else hd qs) (n + 1) h1
             = Some (g', Inr (n', h'))"
          "main_count g' = m" "aux_count g' = a" "wf (hdr_set g' m a h')" by auto
        with st nx show ?thesis unfolding cur by auto
      qed
    qed
  qed
qed

text \<open>delete\_key on a well-formed file: it returns a count, and the file is well-formed.\<close>

lemma sf_delete_key_wf:
  assumes w: "wf f"
  shows "\<exists>g n. sf_delete_key f k r = Some (g, Inr n) \<and> wf g"
proof (cases "head_ptr f = 0")
  case True
  with w show ?thesis by (simp add: sf_delete_key_def)
next
  case False
  note b = wf_basic[OF w]
  let ?m = "main_count f" and ?a = "aux_count f" and ?h = "head_ptr f"
  from wf_logical[OF w] obtain ps where
    ps: "seg f ?h ps 0" "set ps = set (live_ptrs f)" "logical_list f = Some ps" by blast
  have fe: "hdr_set f ?m ?a ?h = f" by (simp add: hdr_set_def)
  from sf_lb_ok[OF w, of k] obtain lb where lb: "sf_lb f k = Inr lb" by blast
  have "min (lb - 1) ?m \<le> ?m" by simp
  from back_scan_ok[OF b(2,3) this, of ?m] obtain j where
    j: "back_scan f ?m (min (lb - 1) ?m) = Inr j" "j \<le> min (lb - 1) ?m"
    "1 \<le> j \<longrightarrow> \<not> deleted (ents f ! nat (j - 1))" by blast
  have "\<exists>pre post prev cur.
          (if j \<ge> 1 then dptr j else Inr 0) = Inr prev
        \<and> (if j \<ge> 1 then map_sum id next_ptr (sf_read f False j ?m) else Inr ?h) = Inr cur
        \<and> ps = pre @ post \<and> prev = (if pre = [] then 0 else last pre)
        \<and> cur = (if post = [] then 0 else hd post)"
  proof (cases "j \<ge> 1")
    case True
    have vj: "valid_ptr f j" using True j(2) by (simp add: valid_ptr_def)
    have ej: "ent_at f j = ents f ! nat (j - 1)" using True by (rule ent_at_D)
    have "j \<in> set ps" using vj j(3) True ej unfolding ps(2) set_live_ptrs by simp
    then obtain pre0 rest where sp: "ps = pre0 @ j # rest" by (auto dest: split_list)
    have rd: "sf_read f False j ?m = Inr (ents f ! nat (j - 1))"
      using True j(2) b by (intro read_D) auto
    from ps(1) have "seg f (next_ptr (ent_at f j)) rest 0"
      unfolding sp seg_append by auto
    then have nx: "next_ptr (ents f ! nat (j - 1)) = (if rest = [] then 0 else hd rest)"
      unfolding ej by (cases rest) auto
    show ?thesis
      by (rule exI[of _ "pre0 @ [j]"], rule exI[of _ rest], rule exI[of _ j],
          rule exI[of _ "next_ptr (ents f ! nat (j - 1))"])
         (use True rd nx sp in \<open>simp add: dptr_def\<close>)
  next
    case nj: False
    from ps(1) False have "ps \<noteq> []" "?h = hd ps" by (cases ps; auto)+
    then show ?thesis
      by (intro exI[of _ "[]"] exI[of _ ps] exI[of _ 0] exI[of _ ?h]) (use nj in simp)
  qed
  then obtain pre post prev cur where
    st: "(if j \<ge> 1 then dptr j else Inr 0) = Inr prev"
    "(if j \<ge> 1 then map_sum id next_ptr (sf_read f False j ?m) else Inr ?h) = Inr cur"
    "ps = pre @ post" "prev = (if pre = [] then 0 else last pre)"
    "cur = (if post = [] then 0 else hd post)" by blast
  have w': "wf (hdr_set f ?m ?a ?h)" and ll': "logical_list (hdr_set f ?m ?a ?h) = Some (pre @ post)"
    using w ps(3) st(3) by (simp_all add: fe)
  from del_walk_ok[OF refl refl w' ll', of k r 0] obtain g' n' h' where
    d: "del_walk f ?m k r prev cur 0 ?h = Some (g', Inr (n', h'))" "wf (hdr_set g' ?m ?a h')"
    unfolding st(4,5) by blast
  have "sf_delete_key f k r = Some (hdr_set g' ?m ?a h', Inr n')"
    using False lb j(1) st(1,2) d(1) by (simp add: sf_delete_key_def Let_def)
  with d(2) show ?thesis by blast
qed

section \<open>Reachable index files are well-formed\<close>

lemma wf_empty: "wf sf_empty"
  by (simp add: wf_def sf_empty_def logical_ok_def logical_list_def live_ptrs_def all_ptrs_def)

lemma sf_insert_total_wf:
  assumes "wf f"
  shows "\<exists>g r. sf_insert f e = Some (g, r) \<and> wf g"
proof (cases "packable e")
  case True
  from sf_insert_wf[OF assms True] show ?thesis by blast
next
  case False
  from sf_insert_unpackable[OF False, of f] assms show ?thesis by blast
qed

lemma reachable_wf: "reachable f \<Longrightarrow> wf f"
proof (induction rule: reachable.induct)
  case reach_empty
  show ?case by (rule wf_empty)
next
  case (reach_insert f e f' r)
  from sf_insert_total_wf[OF reach_insert.IH, of e] reach_insert.hyps(2)
  show ?case by auto
next
  case (reach_delete f k rd f' r)
  from sf_delete_key_wf[OF reach_delete.IH, of k rd] reach_delete.hyps(2)
  show ?case by auto
next
  case (reach_reorganize f f')
  from wf_logical[OF reach_reorganize.IH] obtain ps where "logical_list f = Some ps" by blast
  from reorganize_wf[OF reach_reorganize.IH this] reach_reorganize.hyps(2)
  show ?case by auto
qed

lemma wf_logical_ok: "wf f \<Longrightarrow> logical_ok f"
  by (simp add: wf_def)

section \<open>The result of reorganize\<close>

text \<open>
  C6.  On a well-formed index file, reorganize completes and leaves: \<open>aux_count = 0\<close>;
  in D the live entries (every live entry once), in the order of the logical list, which
  is by non-decreasing key, with their keys and RIDs; the pointers of D chained
  \<open>D[1] \<rightarrow> D[2] \<rightarrow> \<dots> \<rightarrow> D[newm] \<rightarrow> 0\<close>; and \<open>head_ptr\<close> at \<open>D[1]\<close> when there is a live
  entry, 0 otherwise.
\<close>

theorem reorganize_result:
  assumes "wf f"
  shows "\<exists>f' ps. logical_list f = Some ps \<and> sf_reorganize f = Inr f'
          \<and> aux_count f' = 0 \<and> main_count f' = int (length ps)
          \<and> distinct ps \<and> set ps = set (live_ptrs f) \<and> sorted (map (key_at f) ps)
          \<and> map key (take (length ps) (ents f')) = map (key_at f) ps
          \<and> map rid (take (length ps) (ents f')) = map (\<lambda>p. rid (ent_at f p)) ps
          \<and> linked (length ps) (ents f')
          \<and> head_ptr f' = (if ps = [] then 0 else 1)
          \<and> (head_ptr f' = 0 \<longleftrightarrow> live_ptrs f = [])"
proof -
  from wf_logical[OF assms] obtain ps where
    ps: "logical_list f = Some ps" "distinct ps" "set ps = set (live_ptrs f)"
    "sorted (map (key_at f) ps)" by blast
  from reorganize_wf[OF assms ps(1)] obtain f' where
    f': "sf_reorganize f = Inr f'" "main_count f' = int (length ps)" "aux_count f' = 0"
    "head_ptr f' = (if ps = [] then 0 else 1)"
    "take (length ps) (ents f') = relink 1 (int (length ps)) (map (ent_at f) ps)"
    by blast
  have k: "map key (take (length ps) (ents f')) = map (key_at f) ps"
    unfolding f'(5) by (simp add: key_at_def comp_def)
  have r: "map rid (take (length ps) (ents f')) = map (\<lambda>p. rid (ent_at f p)) ps"
    unfolding f'(5) by (simp add: comp_def)
  have "length ps \<le> length (ents f')"
    using arg_cong[OF f'(5), of length] by simp
  then have "ents f' = relink 1 (int (length ps)) (map (ent_at f) ps) @ drop (length ps) (ents f')"
    using f'(5) by (metis append_take_drop_id)
  then have l: "linked (length ps) (ents f')"
    using linked_relink[of "map (ent_at f) ps" "drop (length ps) (ents f')"] by simp
  have e: "head_ptr f' = 0 \<longleftrightarrow> live_ptrs f = []"
    using f'(4) ps(3) by (cases ps) auto
  show ?thesis using ps f' k r l e by blast
qed

theorem reorganize_result_witness:
  "wf \<lparr> main_count = 3, aux_count = 1, head_ptr = 1,
        ents = [\<lparr> key = 10, rid = \<lparr> page = 0, slot = 0 \<rparr>, next_ptr = 2 \<rparr>,
                \<lparr> key = 12, rid = \<lparr> page = 0, slot = 2 \<rparr>, next_ptr = - 2 \<rparr>,
                \<lparr> key = 15, rid = \<lparr> page = 0, slot = 1 \<rparr>, next_ptr = 0 \<rparr>,
                \<lparr> key = 15, rid = \<lparr> page = 0, slot = 3 \<rparr>, next_ptr = 3 \<rparr>] \<rparr>
   \<and> sf_reorganize \<lparr> main_count = 3, aux_count = 1, head_ptr = 1,
        ents = [\<lparr> key = 10, rid = \<lparr> page = 0, slot = 0 \<rparr>, next_ptr = 2 \<rparr>,
                \<lparr> key = 12, rid = \<lparr> page = 0, slot = 2 \<rparr>, next_ptr = - 2 \<rparr>,
                \<lparr> key = 15, rid = \<lparr> page = 0, slot = 1 \<rparr>, next_ptr = 0 \<rparr>,
                \<lparr> key = 15, rid = \<lparr> page = 0, slot = 3 \<rparr>, next_ptr = 3 \<rparr>] \<rparr>
     = Inr \<lparr> main_count = 4, aux_count = 0, head_ptr = 1,
        ents = [\<lparr> key = 10, rid = \<lparr> page = 0, slot = 0 \<rparr>, next_ptr = 2 \<rparr>,
                \<lparr> key = 12, rid = \<lparr> page = 0, slot = 2 \<rparr>, next_ptr = 3 \<rparr>,
                \<lparr> key = 15, rid = \<lparr> page = 0, slot = 3 \<rparr>, next_ptr = 4 \<rparr>,
                \<lparr> key = 15, rid = \<lparr> page = 0, slot = 1 \<rparr>, next_ptr = 0 \<rparr>] \<rparr>"
proof -
  let ?f = "\<lparr> main_count = 3, aux_count = 1, head_ptr = 1,
        ents = [\<lparr> key = 10, rid = \<lparr> page = 0, slot = 0 \<rparr>, next_ptr = 2 \<rparr>,
                \<lparr> key = 12, rid = \<lparr> page = 0, slot = 2 \<rparr>, next_ptr = - 2 \<rparr>,
                \<lparr> key = 15, rid = \<lparr> page = 0, slot = 1 \<rparr>, next_ptr = 0 \<rparr>,
                \<lparr> key = 15, rid = \<lparr> page = 0, slot = 3 \<rparr>, next_ptr = 3 \<rparr>] \<rparr>"
  have w: "wf ?f" by code_simp
  have r: "sf_reorganize ?f = Inr \<lparr> main_count = 4, aux_count = 0, head_ptr = 1,
        ents = [\<lparr> key = 10, rid = \<lparr> page = 0, slot = 0 \<rparr>, next_ptr = 2 \<rparr>,
                \<lparr> key = 12, rid = \<lparr> page = 0, slot = 2 \<rparr>, next_ptr = 3 \<rparr>,
                \<lparr> key = 15, rid = \<lparr> page = 0, slot = 3 \<rparr>, next_ptr = 4 \<rparr>,
                \<lparr> key = 15, rid = \<lparr> page = 0, slot = 1 \<rparr>, next_ptr = 0 \<rparr>] \<rparr>"
    by code_simp
  from reorganize_result[OF w] r w show ?thesis by simp
qed

section \<open>Idempotence of reorganize\<close>

text \<open>
  C9.  On a well-formed index file reorganize completes, and a second reorganize right
  after it completes as well and leaves the very same file: the same header and the
  same entries.
\<close>

theorem reorganize_idempotent:
  assumes "wf f"
  shows "\<exists>f'. sf_reorganize f = Inr f' \<and> sf_reorganize f' = Inr f'"
proof -
  from wf_logical[OF assms] obtain ps where "logical_list f = Some ps" by blast
  from reorganize_wf[OF assms this] obtain f' where "sf_reorganize f = Inr f'" by blast
  with reorganize_fixpoint[OF this] show ?thesis by blast
qed

theorem reorganize_idempotent_witness:
  "wf \<lparr> main_count = 1, aux_count = 1, head_ptr = - 2,
        ents = [\<lparr> key = 15, rid = \<lparr> page = 0, slot = 1 \<rparr>, next_ptr = 0 \<rparr>,
                \<lparr> key = 15, rid = \<lparr> page = 0, slot = 3 \<rparr>, next_ptr = 1 \<rparr>] \<rparr>
   \<and> (\<exists>f'. sf_reorganize \<lparr> main_count = 1, aux_count = 1, head_ptr = - 2,
        ents = [\<lparr> key = 15, rid = \<lparr> page = 0, slot = 1 \<rparr>, next_ptr = 0 \<rparr>,
                \<lparr> key = 15, rid = \<lparr> page = 0, slot = 3 \<rparr>, next_ptr = 1 \<rparr>] \<rparr> = Inr f'
          \<and> sf_reorganize f' = Inr f')"
proof -
  let ?f = "\<lparr> main_count = 1, aux_count = 1, head_ptr = - 2,
        ents = [\<lparr> key = 15, rid = \<lparr> page = 0, slot = 1 \<rparr>, next_ptr = 0 \<rparr>,
                \<lparr> key = 15, rid = \<lparr> page = 0, slot = 3 \<rparr>, next_ptr = 1 \<rparr>] \<rparr>"
  have w: "wf ?f" by code_simp
  from reorganize_idempotent[OF w] w show ?thesis by simp
qed

section \<open>The invariant of the logical list\<close>

text \<open>
  C3.  In every index file reached from the empty index by insert, delete\_key and
  reorganize, following \<open>next_ptr\<close> from \<open>head_ptr\<close> (skipping tombstones) meets every
  live entry exactly once, in non-decreasing key order.  Each of the three operations,
  run on such a file, returns and leaves a file with the same property.
\<close>

theorem logical_list_invariant:
  assumes "reachable f"
  shows "logical_ok f
     \<and> (\<forall>e. \<exists>f' r. sf_insert f e = Some (f', r) \<and> logical_ok f')
     \<and> (\<forall>k rd. \<exists>f' n. sf_delete_key f k rd = Some (f', Inr n) \<and> logical_ok f')
     \<and> (\<exists>f'. sf_reorganize f = Inr f' \<and> logical_ok f')"
proof -
  have w: "wf f" using assms by (rule reachable_wf)
  have i: "\<exists>f' r. sf_insert f e = Some (f', r) \<and> logical_ok f'" for e
    using sf_insert_total_wf[OF w, of e] wf_logical_ok by blast
  have d: "\<exists>f' n. sf_delete_key f k rd = Some (f', Inr n) \<and> logical_ok f'" for k rd
    using sf_delete_key_wf[OF w, of k rd] wf_logical_ok by blast
  from wf_logical[OF w] obtain ps where "logical_list f = Some ps" by blast
  from reorganize_wf[OF w this] have r: "\<exists>f'. sf_reorganize f = Inr f' \<and> logical_ok f'"
    using wf_logical_ok by blast
  from w i d r show ?thesis using wf_logical_ok by blast
qed

theorem logical_list_invariant_witness:
  "reachable \<lparr> main_count = 1, aux_count = 1, head_ptr = - 2,
        ents = [\<lparr> key = 15, rid = \<lparr> page = 0, slot = 1 \<rparr>, next_ptr = 0 \<rparr>,
                \<lparr> key = 15, rid = \<lparr> page = 0, slot = 3 \<rparr>, next_ptr = 1 \<rparr>] \<rparr>
   \<and> logical_ok \<lparr> main_count = 1, aux_count = 1, head_ptr = - 2,
        ents = [\<lparr> key = 15, rid = \<lparr> page = 0, slot = 1 \<rparr>, next_ptr = 0 \<rparr>,
                \<lparr> key = 15, rid = \<lparr> page = 0, slot = 3 \<rparr>, next_ptr = 1 \<rparr>] \<rparr>
   \<and> logical_list \<lparr> main_count = 1, aux_count = 1, head_ptr = - 2,
        ents = [\<lparr> key = 15, rid = \<lparr> page = 0, slot = 1 \<rparr>, next_ptr = 0 \<rparr>,
                \<lparr> key = 15, rid = \<lparr> page = 0, slot = 3 \<rparr>, next_ptr = 1 \<rparr>] \<rparr>
       = Some [- 2, 1]"
proof -
  let ?e1 = "\<lparr> key = 15, rid = \<lparr> page = 0, slot = 1 \<rparr>, next_ptr = 0 \<rparr>"
  let ?e2 = "\<lparr> key = 15, rid = \<lparr> page = 0, slot = 3 \<rparr>, next_ptr = 0 \<rparr>"
  let ?f1 = "\<lparr> main_count = 1, aux_count = 0, head_ptr = 1, ents = [?e1] \<rparr>"
  let ?f2 = "\<lparr> main_count = 1, aux_count = 1, head_ptr = - 2,
        ents = [\<lparr> key = 15, rid = \<lparr> page = 0, slot = 1 \<rparr>, next_ptr = 0 \<rparr>,
                \<lparr> key = 15, rid = \<lparr> page = 0, slot = 3 \<rparr>, next_ptr = 1 \<rparr>] \<rparr>"
  have s1: "sf_insert sf_empty ?e1 = Some (?f1, Inr ())" by code_simp
  have s2: "sf_insert ?f1 ?e2 = Some (?f2, Inr ())" by code_simp
  have r: "reachable ?f2"
    by (rule reach_insert[OF reach_insert[OF reach_empty s1] s2])
  have l: "logical_list ?f2 = Some [- 2, 1]" by code_simp
  from logical_list_invariant[OF r] r l show ?thesis by blast
qed

section \<open>Fields and files as bytes\<close>

lemma length_le_bytes [simp]: "length (le_bytes n v) = n"
  by (induction n arbitrary: v) auto

lemma le_int_le_bytes: "le_int (le_bytes n v) = v mod 256 ^ n"
proof (induction n arbitrary: v)
  case 0 then show ?case by simp
next
  case (Suc n)
  have "uint (word_of_int (v mod 256) :: byte) = v mod 256"
    by (simp add: uint_word_of_int take_bit_eq_mod)
  then have "le_int (le_bytes (Suc n) v) = v mod 256 + 256 * ((v div 256) mod 256 ^ n)"
    using Suc.IH[of "v div 256"] by simp
  also have "\<dots> = v mod (256 * 256 ^ n)"
    by (simp add: zmod_zmult2_eq)
  finally show ?case by simp
qed

lemma le_int_bounds: "0 \<le> le_int bs \<and> le_int bs < 256 ^ length bs"
proof (induction bs)
  case Nil then show ?case by simp
next
  case (Cons b bs)
  have "0 \<le> uint b" "uint b < 256" using uint_bounded[of b] by simp_all
  with Cons show ?case by simp
qed

lemma unpack_pack_HH:
  assumes "0 \<le> x" "x < 65536" "0 \<le> y" "y < 65536"
  shows "\<exists>bs. pack_HH x y = Inr bs \<and> length bs = 4 \<and> unpack_HH bs = Inr (x, y)"
proof -
  have "le_int (le_bytes 2 x) = x" "le_int (le_bytes 2 y) = y"
    using assms by (simp_all add: le_int_le_bytes)
  then show ?thesis
    using assms by (simp add: pack_HH_def pack_H_def unpack_HH_def)
qed

lemma unpack_HH_range:
  assumes "unpack_HH bs = Inr (x, y)"
  shows "0 \<le> x \<and> x < 65536 \<and> 0 \<le> y \<and> y < 65536"
proof -
  from assms have l: "length bs = 4" and x: "x = le_int (take 2 bs)" and y: "y = le_int (drop 2 bs)"
    by (auto simp: unpack_HH_def split: if_splits)
  from le_int_bounds[of "take 2 bs"] le_int_bounds[of "drop 2 bs"] l x y
  show ?thesis by simp
qed

text \<open>A write inside the file: the bytes written, and the bytes around them.\<close>

lemma file_write_in:
  assumes "0 \<le> off" "off + int (length bs) \<le> int (length f)"
  shows "file_write f off bs = Inr (take (nat off) f @ bs @ drop (nat off + length bs) f)"
  using assms by (simp add: file_write_def)

lemma nth_written:
  assumes "k + length bs \<le> length f" "i < length f"
  shows "(take k f @ bs @ drop (k + length bs) f) ! i
         = (if k \<le> i \<and> i < k + length bs then bs ! (i - k) else f ! i)"
  using assms by (auto simp: nth_append min_def)

lemma read_eqI:
  assumes "length f' = length f"
    and "\<And>i. nat off \<le> i \<Longrightarrow> i < nat off + nat n \<Longrightarrow> i < length f \<Longrightarrow> f' ! i = f ! i"
  shows "file_read f' off n = file_read f off n"
proof (cases "off < 0")
  case True then show ?thesis by (simp add: file_read_def)
next
  case False
  have "take (nat n) (drop (nat off) f') = take (nat n) (drop (nat off) f)"
  proof (rule nth_equalityI)
    show "length (take (nat n) (drop (nat off) f')) = length (take (nat n) (drop (nat off) f))"
      using assms(1) by simp
  next
    fix i assume "i < length (take (nat n) (drop (nat off) f'))"
    then have i: "i < nat n" "nat off + i < length f" using assms(1) by auto
    then show "take (nat n) (drop (nat off) f') ! i = take (nat n) (drop (nat off) f) ! i"
      using assms(1) assms(2)[of "nat off + i"] by simp
  qed
  with False show ?thesis by (simp add: file_read_def)
qed

lemma file_write_props:
  assumes "0 \<le> off" "off + int (length bs) \<le> int (length f)"
  shows "\<exists>f'. file_write f off bs = Inr f' \<and> length f' = length f
          \<and> file_read f' off (int (length bs)) = Inr bs
          \<and> (\<forall>a n. a + n \<le> off \<or> off + int (length bs) \<le> a
                 \<longrightarrow> file_read f' a n = file_read f a n)"
proof -
  let ?o = "nat off"
  let ?f' = "take ?o f @ bs @ drop (?o + length bs) f"
  have b: "?o + length bs \<le> length f" using assms by linarith
  have w: "file_write f off bs = Inr ?f'" by (rule file_write_in[OF assms])
  have l: "length ?f' = length f" using b by simp
  have "take (length bs) (drop ?o ?f') = bs" using b by simp
  then have r: "file_read ?f' off (int (length bs)) = Inr bs"
    using assms(1) by (simp add: file_read_def)
  have d: "file_read ?f' a n = file_read f a n"
    if "a + n \<le> off \<or> off + int (length bs) \<le> a" for a n
  proof (cases "a < 0")
    case True then show ?thesis by (simp add: file_read_def)
  next
    case False
    show ?thesis
    proof (rule read_eqI[OF l])
      fix i assume i: "nat a \<le> i" "i < nat a + nat n" "i < length f"
      have "\<not> (?o \<le> i \<and> i < ?o + length bs)" using that i assms(1) False by linarith
      then show "?f' ! i = f ! i" unfolding nth_written[OF b i(3)] by auto
    qed
  qed
  from w l r d show ?thesis by blast
qed

section \<open>Pages of the heap file\<close>

lemma page_in_file:
  assumes "0 \<le> p" "p < num_pages f"
  shows "p * 4096 + 4096 \<le> int (length f)"
proof -
  have "p + 1 \<le> int (length f) div 4096" using assms by (simp add: num_pages_def PAGE_SIZE_def)
  then have "(p + 1) * 4096 \<le> int (length f) div 4096 * 4096" by simp
  also have "\<dots> \<le> int (length f)" by simp
  finally show ?thesis by (simp add: algebra_simps)
qed

lemma read4:
  assumes "0 \<le> off" "off + 4 \<le> int (length f)"
  shows "\<exists>x y. map_sum id unpack_HH (file_read f off 4) = Inr (Inr (x, y))
               \<and> 0 \<le> x \<and> x < 65536 \<and> 0 \<le> y \<and> y < 65536"
proof -
  let ?bs = "take 4 (drop (nat off) f)"
  have l: "length ?bs = 4" using assms by simp
  then obtain x y where u: "unpack_HH ?bs = Inr (x, y)" by (simp add: unpack_HH_def)
  from unpack_HH_range[OF u] u assms show ?thesis by (simp add: file_read_def)
qed

lemma read_hdr_in:
  assumes "0 \<le> p" "p < num_pages f"
  shows "\<exists>nslots data_end. read_hdr f p = Inr (nslots, data_end)
           \<and> 0 \<le> nslots \<and> nslots < 65536 \<and> 0 \<le> data_end \<and> data_end < 65536"
proof -
  have "0 \<le> p * 4096" "p * 4096 + 4 \<le> int (length f)"
    using page_in_file[OF assms] assms by auto
  from read4[OF this] show ?thesis
    by (auto simp: read_hdr_def page_base_def PAGE_SIZE_def HDR_SIZE_def split: sum.splits)
qed

lemma read_slot_in:
  assumes "0 \<le> p" "p < num_pages f" "0 \<le> s" "4 + 4 * s + 4 \<le> 4096"
  shows "\<exists>off ln. read_slot f p s = Inr (off, ln)
           \<and> 0 \<le> off \<and> off < 65536 \<and> 0 \<le> ln \<and> ln < 65536"
proof -
  have "0 \<le> p * 4096 + 4 + s * 4" "p * 4096 + 4 + s * 4 + 4 \<le> int (length f)"
    using page_in_file[OF assms(1,2)] assms by auto
  from read4[OF this] show ?thesis
    by (auto simp: read_slot_def page_base_def PAGE_SIZE_def HDR_SIZE_def SLOT_SIZE_def
        split: sum.splits)
qed

lemma page_okD:
  assumes "page_ok f p"
  obtains nslots data_end where "read_hdr f p = Inr (nslots, data_end)"
    "0 \<le> p" "p < num_pages f" "0 \<le> nslots" "4 + nslots * 4 \<le> data_end" "data_end \<le> 4096"
proof -
  from assms have p: "0 \<le> p" "p < num_pages f" by (auto simp: page_ok_def)
  from read_hdr_in[OF p] obtain nslots data_end where
    h: "read_hdr f p = Inr (nslots, data_end)" "0 \<le> nslots" by blast
  with assms have "4 + nslots * 4 \<le> data_end" "data_end \<le> 4096"
    by (auto simp: page_ok_def HDR_SIZE_def SLOT_SIZE_def PAGE_SIZE_def)
  with h p that show thesis by blast
qed

text \<open>The search for a free slot in a page whose directory lies within the page.\<close>

lemma ffs_loop_ok:
  "0 \<le> p \<Longrightarrow> p < num_pages f \<Longrightarrow> 4 + nslots * 4 \<le> 4096 \<Longrightarrow> 0 \<le> s \<Longrightarrow>
   (\<exists>x off. ffs_loop f p nslots s = Inr (Some x) \<and> s \<le> x \<and> x < nslots
             \<and> read_slot f p x = Inr (off, 0))
   \<or> ffs_loop f p nslots s = Inr None"
proof (induction f p nslots s rule: ffs_loop.induct)
  case (1 f p nslots s)
  show ?case
  proof (cases "s < nslots")
    case False
    then show ?thesis by (subst (2) ffs_loop.simps) simp
  next
    case True
    have "4 + 4 * s + 4 \<le> 4096" using True "1.prems" by linarith
    from read_slot_in[OF "1.prems"(1,2,4) this] obtain off ln where
      rs: "read_slot f p s = Inr (off, ln)" by blast
    show ?thesis
    proof (cases "ln = 0")
      case z: True
      have "ffs_loop f p nslots s = Inr (Some s)"
        using True rs z by (subst ffs_loop.simps) simp
      with True rs z show ?thesis by auto
    next
      case nz: False
      have st: "ffs_loop f p nslots s = ffs_loop f p nslots (s + 1)"
        using True rs nz by (subst ffs_loop.simps) simp
      have "(\<exists>x off. ffs_loop f p nslots (s + 1) = Inr (Some x) \<and> s + 1 \<le> x \<and> x < nslots
               \<and> read_slot f p x = Inr (off, 0))
            \<or> ffs_loop f p nslots (s + 1) = Inr None"
        using "1.prems" by (intro "1.IH"[OF True rs refl nz]) auto
      then show ?thesis unfolding st by force
    qed
  qed
qed

lemma find_free_slot_ok:
  assumes "0 \<le> p" "p < num_pages f" "4 + nslots * 4 \<le> 4096"
  shows "(\<exists>x off. find_free_slot f p nslots = Inr (Some x) \<and> 0 \<le> x \<and> x < nslots
             \<and> read_slot f p x = Inr (off, 0))
         \<or> find_free_slot f p nslots = Inr None"
  using ffs_loop_ok[OF assms, of 0] by (simp add: find_free_slot_def)

section \<open>Writes into a page\<close>

lemma num_pages_length: "length f' = length f \<Longrightarrow> num_pages f' = num_pages f"
  by (simp add: num_pages_def)

lemma read_hdr_cong:
  "file_read f' (p * 4096) 4 = file_read f (p * 4096) 4 \<Longrightarrow> read_hdr f' p = read_hdr f p"
  by (simp add: read_hdr_def page_base_def PAGE_SIZE_def HDR_SIZE_def)

lemma read_slot_cong:
  "file_read f' (p * 4096 + 4 + s * 4) 4 = file_read f (p * 4096 + 4 + s * 4) 4 \<Longrightarrow>
   read_slot f' p s = read_slot f p s"
  by (simp add: read_slot_def page_base_def PAGE_SIZE_def HDR_SIZE_def SLOT_SIZE_def)

lemma write4:
  assumes "0 \<le> off" "off + 4 \<le> int (length f)" "0 \<le> x" "x < 65536" "0 \<le> y" "y < 65536"
  shows "\<exists>bs f'. pack_HH x y = Inr bs \<and> file_write f off bs = Inr f' \<and> length f' = length f
          \<and> map_sum id unpack_HH (file_read f' off 4) = Inr (Inr (x, y))
          \<and> (\<forall>a n. a + n \<le> off \<or> off + 4 \<le> a \<longrightarrow> file_read f' a n = file_read f a n)"
proof -
  from unpack_pack_HH[OF assms(3-6)] obtain bs where
    bs: "pack_HH x y = Inr bs" "length bs = 4" "unpack_HH bs = Inr (x, y)" by blast
  have "off + int (length bs) \<le> int (length f)" using assms(2) bs(2) by simp
  from file_write_props[OF assms(1) this] obtain f' where
    f': "file_write f off bs = Inr f'" "length f' = length f"
    "file_read f' off (int (length bs)) = Inr bs"
    "\<forall>a n. a + n \<le> off \<or> off + int (length bs) \<le> a \<longrightarrow> file_read f' a n = file_read f a n"
    by blast
  show ?thesis
    using bs f' by (intro exI[of _ bs] exI[of _ f']) simp
qed

lemma write_hdr_in:
  assumes "0 \<le> p" "p < num_pages f" "0 \<le> x" "x < 65536" "0 \<le> y" "y < 65536"
  shows "\<exists>f'. write_hdr f p x y = Inr f' \<and> length f' = length f
          \<and> read_hdr f' p = Inr (x, y)
          \<and> (\<forall>a n. a + n \<le> p * 4096 \<or> p * 4096 + 4 \<le> a
                \<longrightarrow> file_read f' a n = file_read f a n)"
proof -
  have "0 \<le> p * 4096" "p * 4096 + 4 \<le> int (length f)"
    using page_in_file[OF assms(1,2)] assms(1) by auto
  from write4[OF this assms(3-6)] obtain bs f' where
    w: "pack_HH x y = Inr bs" "file_write f (p * 4096) bs = Inr f'" "length f' = length f"
    "map_sum id unpack_HH (file_read f' (p * 4096) 4) = Inr (Inr (x, y))"
    "\<forall>a n. a + n \<le> p * 4096 \<or> p * 4096 + 4 \<le> a \<longrightarrow> file_read f' a n = file_read f a n"
    by blast
  have "write_hdr f p x y = Inr f'"
    using w(1,2) assms(1) by (simp add: write_hdr_def page_base_def PAGE_SIZE_def)
  moreover have "read_hdr f' p = Inr (x, y)"
    using w(4) by (auto simp: read_hdr_def page_base_def PAGE_SIZE_def HDR_SIZE_def
        split: sum.splits)
  ultimately show ?thesis using w(3,5) by blast
qed

lemma write_slot_in:
  assumes "0 \<le> p" "p < num_pages f" "0 \<le> s" "4 + 4 * s + 4 \<le> 4096"
    "0 \<le> x" "x < 65536" "0 \<le> y" "y < 65536"
  shows "\<exists>f'. write_slot f p s x y = Inr f' \<and> length f' = length f
          \<and> read_slot f' p s = Inr (x, y)
          \<and> (\<forall>a n. a + n \<le> p * 4096 + 4 + s * 4 \<or> p * 4096 + 4 + s * 4 + 4 \<le> a
                \<longrightarrow> file_read f' a n = file_read f a n)"
proof -
  let ?off = "p * 4096 + 4 + s * 4"
  have "0 \<le> ?off" "?off + 4 \<le> int (length f)"
    using page_in_file[OF assms(1,2)] assms(1,3,4) by auto
  from write4[OF this assms(5-8)] obtain bs f' where
    w: "pack_HH x y = Inr bs" "file_write f ?off bs = Inr f'" "length f' = length f"
    "map_sum id unpack_HH (file_read f' ?off 4) = Inr (Inr (x, y))"
    "\<forall>a n. a + n \<le> ?off \<or> ?off + 4 \<le> a \<longrightarrow> file_read f' a n = file_read f a n"
    by blast
  have "write_slot f p s x y = Inr f'"
    using w(1,2) assms(1,3)
    by (simp add: write_slot_def page_base_def PAGE_SIZE_def HDR_SIZE_def SLOT_SIZE_def)
  moreover have "read_slot f' p s = Inr (x, y)"
    using w(4) by (auto simp: read_slot_def page_base_def PAGE_SIZE_def HDR_SIZE_def
        SLOT_SIZE_def split: sum.splits)
  ultimately show ?thesis using w(3,5) by blast
qed

text \<open>
  A page with room: the blob goes below \<open>data_end\<close>, its slot and the header are
  written, and nothing else in the file changes.
\<close>

lemma place_fits:
  assumes ok: "page_ok f p" and hd: "read_hdr f p = Inr (ns, de)"
    and fr: "page_free f p = Inr free" and ne: "blob \<noteq> []"
    and fit: "int (length blob) \<le> free"
  shows "\<exists>f' s ns'. place f p blob = (f', Inr (Some \<lparr> page = p, slot = s \<rparr>))
          \<and> length f' = length f \<and> 0 \<le> s \<and> s < ns' \<and> ns \<le> ns' \<and> ns' \<le> ns + 1
          \<and> read_hdr f' p = Inr (ns', de - int (length blob))
          \<and> 4 + ns' * 4 \<le> de - int (length blob)
          \<and> read_slot f' p s = Inr (de - int (length blob), int (length blob))
          \<and> file_read f' (p * 4096 + (de - int (length blob))) (int (length blob)) = Inr blob
          \<and> (\<forall>a n. a + n \<le> p * 4096 \<or> p * 4096 + 4096 \<le> a
                \<longrightarrow> file_read f' a n = file_read f a n)
          \<and> (\<forall>s'. 0 \<le> s' \<and> s' < ns \<and> s' \<noteq> s \<longrightarrow> read_slot f' p s' = read_slot f p s')"
proof -
  from page_okD[OF ok] hd have
    p: "0 \<le> p" "p < num_pages f" and g: "0 \<le> ns" "4 + ns * 4 \<le> de" "de \<le> 4096"
    by auto
  let ?len = "int (length blob)"
  have len1: "1 \<le> ?len" using ne by (cases blob) auto
  have d4: "4 + ns * 4 \<le> 4096" using g by linarith
  from find_free_slot_ok[OF p d4] obtain sf where
    sf: "find_free_slot f p ns = Inr sf" "case sf of None \<Rightarrow> True | Some x \<Rightarrow> 0 \<le> x \<and> x < ns"
    by (auto split: option.splits)
  let ?reuse = "sf \<noteq> None"
  let ?s = "case sf of Some x \<Rightarrow> x | None \<Rightarrow> ns"
  let ?ns' = "if ?reuse then ns else ns + 1"
  let ?de' = "de - ?len"
  have free: "free = free_bytes ns de ?reuse" using fr hd sf(1) by (simp add: page_free_def)
  have room: "4 + ?ns' * 4 + ?len \<le> de"
    using fit len1 unfolding free
    by (auto simp: free_bytes_def HDR_SIZE_def SLOT_SIZE_def Let_def split: if_splits)
  have s: "0 \<le> ?s" "?s < ?ns'" using sf(2) g(1) by (auto split: option.splits)
  have rng: "0 \<le> ?ns'" "?ns' < 65536" "0 \<le> de" "de < 65536" "0 \<le> ?de'" "?de' < 65536"
    "?len < 65536" using room g len1 by (auto split: if_splits)
  have fits: "free_bytes ns de ?reuse \<ge> ?len" using fit free by simp
  \<comment> \<open>the header with the new slot\<close>
  have "\<exists>f1. (if \<not> ?reuse then write_hdr f p ?ns' de else Inr f) = Inr f1
          \<and> length f1 = length f
          \<and> (\<forall>a n. a + n \<le> p * 4096 \<or> p * 4096 + 4 \<le> a
                \<longrightarrow> file_read f1 a n = file_read f a n)"
  proof (cases ?reuse)
    case True then show ?thesis by simp
  next
    case False
    from write_hdr_in[OF p rng(1,2,3,4)] False show ?thesis by auto
  qed
  then obtain f1 where
    f1: "(if \<not> ?reuse then write_hdr f p ?ns' de else Inr f) = Inr f1" "length f1 = length f"
    "\<And>a n. a + n \<le> p * 4096 \<or> p * 4096 + 4 \<le> a \<Longrightarrow> file_read f1 a n = file_read f a n"
    by blast
  \<comment> \<open>the blob\<close>
  have pf: "p * 4096 + 4096 \<le> int (length f)" by (rule page_in_file[OF p])
  have "0 \<le> p * 4096 + ?de'" "p * 4096 + ?de' + ?len \<le> int (length f1)"
    using rng p(1) g(3) pf f1(2) by auto
  from file_write_props[OF this] obtain f2 where
    f2: "file_write f1 (p * 4096 + ?de') blob = Inr f2" "length f2 = length f1"
    "file_read f2 (p * 4096 + ?de') ?len = Inr blob"
    "\<And>a n. a + n \<le> p * 4096 + ?de' \<or> p * 4096 + ?de' + ?len \<le> a
        \<Longrightarrow> file_read f2 a n = file_read f1 a n"
    by blast
  \<comment> \<open>the slot\<close>
  have p2: "p < num_pages f2" using p(2) f1(2) f2(2) by (simp add: num_pages_def)
  have s4: "4 + 4 * ?s + 4 \<le> 4096" using s room g(3) len1 by linarith
  from write_slot_in[OF p(1) p2 s(1) s4 rng(5,6) _ rng(7)] obtain f3 where
    f3: "write_slot f2 p ?s ?de' ?len = Inr f3" "length f3 = length f2"
    "read_slot f3 p ?s = Inr (?de', ?len)"
    "\<And>a n. a + n \<le> p * 4096 + 4 + ?s * 4 \<or> p * 4096 + 4 + ?s * 4 + 4 \<le> a
        \<Longrightarrow> file_read f3 a n = file_read f2 a n"
    by auto
  \<comment> \<open>the header\<close>
  have p3: "p < num_pages f3" using p2 f3(2) by (simp add: num_pages_def)
  from write_hdr_in[OF p(1) p3 rng(1,2,5,6)] obtain f4 where
    f4: "write_hdr f3 p ?ns' ?de' = Inr f4" "length f4 = length f3"
    "read_hdr f4 p = Inr (?ns', ?de')"
    "\<And>a n. a + n \<le> p * 4096 \<or> p * 4096 + 4 \<le> a \<Longrightarrow> file_read f4 a n = file_read f3 a n"
    by blast
  have pl: "place f p blob = (f4, Inr (Some \<lparr> page = p, slot = ?s \<rparr>))"
  proof (cases sf)
    case None
    with hd sf(1) fits f1(1) f2(1) f3(1) f4(1) show ?thesis
      by (simp add: place_def Let_def page_base_def PAGE_SIZE_def)
  next
    case (Some x)
    with hd sf(1) fits f1(1) f2(1) f3(1) f4(1) show ?thesis
      by (simp add: place_def Let_def page_base_def PAGE_SIZE_def)
  qed
  have slot: "read_slot f4 p ?s = Inr (?de', ?len)"
  proof -
    have "file_read f4 (p * 4096 + 4 + ?s * 4) 4 = file_read f3 (p * 4096 + 4 + ?s * 4) 4"
      using s(1) by (intro f4(4)) simp
    from read_slot_cong[OF this] f3(3) show ?thesis by simp
  qed
  have blob: "file_read f4 (p * 4096 + ?de') ?len = Inr blob"
  proof -
    have "file_read f4 (p * 4096 + ?de') ?len = file_read f3 (p * 4096 + ?de') ?len"
      using s room by (intro f4(4)) linarith
    also have "\<dots> = file_read f2 (p * 4096 + ?de') ?len"
      using s room by (intro f3(4)) linarith
    finally show ?thesis using f2(3) by simp
  qed
  have outside: "file_read f4 a n = file_read f a n"
    if "a + n \<le> p * 4096 \<or> p * 4096 + 4096 \<le> a" for a n
  proof -
    have "file_read f4 a n = file_read f3 a n" using that by (intro f4(4)) linarith
    also have "\<dots> = file_read f2 a n" using that s s4 by (intro f3(4)) linarith
    also have "\<dots> = file_read f1 a n" using that rng g(3) by (intro f2(4)) linarith
    also have "\<dots> = file_read f a n" using that by (intro f1(3)) linarith
    finally show ?thesis .
  qed
  have others: "read_slot f4 p s' = read_slot f p s'"
    if "0 \<le> s'" "s' < ns" "s' \<noteq> ?s" for s'
  proof -
    let ?a = "p * 4096 + 4 + s' * 4"
    have "file_read f4 ?a 4 = file_read f3 ?a 4" using that by (intro f4(4)) linarith
    also have "\<dots> = file_read f2 ?a 4" using that by (intro f3(4)) linarith
    also have "\<dots> = file_read f1 ?a 4" using that room by (intro f2(4)) (auto split: if_splits)
    also have "\<dots> = file_read f ?a 4" using that by (intro f1(3)) linarith
    finally show ?thesis by (rule read_slot_cong)
  qed
  have len: "length f4 = length f" using f1(2) f2(2) f3(2) f4(2) by simp
  have nsle: "ns \<le> ?ns'" "?ns' \<le> ns + 1" by simp_all
  have dir: "4 + ?ns' * 4 \<le> ?de'" using room by linarith
  show ?thesis
    apply (rule exI[of _ f4], rule exI[of _ ?s], rule exI[of _ ?ns'])
    using pl len s nsle f4(3) dir slot blob outside others
    by (simp add: add_diff_eq)
qed

lemma place_full:
  assumes ok: "page_ok f p" and fr: "page_free f p = Inr free"
    and fit: "free < int (length blob)"
  shows "place f p blob = (f, Inr None)"
proof -
  from fr obtain ns de sf where
    h: "read_hdr f p = Inr (ns, de)" "find_free_slot f p ns = Inr sf"
    "free = free_bytes ns de (sf \<noteq> None)"
    by (auto simp: page_free_def split: sum.splits)
  with fit show ?thesis by (simp add: place_def Let_def)
qed

lemma page_free_ok:
  assumes "page_ok f p"
  shows "\<exists>free. page_free f p = Inr free \<and> 0 \<le> free"
proof -
  from page_okD[OF assms] obtain ns de where
    h: "read_hdr f p = Inr (ns, de)" "0 \<le> p" "p < num_pages f" "4 + ns * 4 \<le> de" "de \<le> 4096"
    by blast
  have "4 + ns * 4 \<le> 4096" using h by linarith
  from find_free_slot_ok[OF h(2,3) this] obtain sf where "find_free_slot f p ns = Inr sf"
    by auto
  with h(1) show ?thesis by (simp add: page_free_def free_bytes_def Let_def)
qed

section \<open>insert and delete in the heap\<close>

lemma heap_ok_iff: "heap_ok f \<longleftrightarrow> (\<forall>q. 0 \<le> q \<and> q < num_pages f \<longrightarrow> page_ok f q)"
proof
  assume h: "heap_ok f"
  show "\<forall>q. 0 \<le> q \<and> q < num_pages f \<longrightarrow> page_ok f q"
  proof (intro allI impI)
    fix q assume q: "0 \<le> q \<and> q < num_pages f"
    then have "q = int (nat q)" "nat q \<in> set [0..<nat (num_pages f)]" by auto
    then have "q \<in> set (map int [0..<nat (num_pages f)])" unfolding set_map by (rule image_eqI)
    with h show "page_ok f q" by (auto simp: heap_ok_def list_all_iff)
  qed
next
  assume "\<forall>q. 0 \<le> q \<and> q < num_pages f \<longrightarrow> page_ok f q"
  then show "heap_ok f" by (auto simp: heap_ok_def list_all_iff)
qed

lemma page_ok_cong:
  assumes "length f' = length f" "read_hdr f' q = read_hdr f q"
  shows "page_ok f' q = page_ok f q"
  using assms by (simp add: page_ok_def num_pages_def)

lemma read_hdr_outside:
  assumes "\<And>a n. a + n \<le> p * 4096 \<or> p * 4096 + 4096 \<le> a \<Longrightarrow> file_read f' a n = file_read f a n"
    and "q \<noteq> p"
  shows "read_hdr f' q = read_hdr f q"
proof -
  have "q * 4096 + 4 \<le> p * 4096 \<or> p * 4096 + 4096 \<le> q * 4096" using assms(2) by linarith
  from assms(1)[OF this] show ?thesis by (rule read_hdr_cong)
qed

lemma read_slot_outside:
  assumes "\<And>a n. a + n \<le> p * 4096 \<or> p * 4096 + 4096 \<le> a \<Longrightarrow> file_read f' a n = file_read f a n"
    and "q \<noteq> p" "0 \<le> s" "4 + 4 * s + 4 \<le> 4096"
  shows "read_slot f' q s = read_slot f q s"
proof -
  have "q * 4096 + 4 + s * 4 + 4 \<le> p * 4096 \<or> p * 4096 + 4096 \<le> q * 4096 + 4 + s * 4"
    using assms(2,3,4) by linarith
  from assms(1)[OF this] show ?thesis by (rule read_slot_cong)
qed

text \<open>A new page at the end of the file: empty, with 4088 free bytes.\<close>

lemma ensure_page_new:
  "\<exists>f2. ensure_page f (num_pages f) = (f2, Inr ())
        \<and> num_pages f2 = num_pages f + 1 \<and> length f2 = length f + 4096
        \<and> read_hdr f2 (num_pages f) = Inr (0, 4096)
        \<and> page_ok f2 (num_pages f)
        \<and> page_free f2 (num_pages f) = Inr 4088
        \<and> (\<forall>a n. 0 \<le> a \<and> 0 \<le> n \<and> a + n \<le> num_pages f * 4096
               \<longrightarrow> file_read f2 a n = file_read f a n)"
proof -
  let ?p = "num_pages f"
  let ?f1 = "f @ replicate 4096 0"
  have p0: "0 \<le> ?p" by (simp add: num_pages_def PAGE_SIZE_def)
  have pl: "?p * 4096 \<le> int (length f)" by (simp add: num_pages_def PAGE_SIZE_def)
  have n1: "num_pages ?f1 = ?p + 1" by (simp add: num_pages_def PAGE_SIZE_def)
  then have p1: "?p < num_pages ?f1" by simp
  from write_hdr_in[OF p0 p1, of 0 4096] obtain f2 where
    f2: "write_hdr ?f1 ?p 0 4096 = Inr f2" "length f2 = length ?f1"
    "read_hdr f2 ?p = Inr (0, 4096)"
    "\<And>a n. a + n \<le> ?p * 4096 \<or> ?p * 4096 + 4 \<le> a \<Longrightarrow> file_read f2 a n = file_read ?f1 a n"
    by auto
  have e: "ensure_page f ?p = (f2, Inr ())"
    using f2(1) by (simp add: ensure_page_def PAGE_SIZE_def Let_def)
  have n2: "num_pages f2 = ?p + 1" using n1 num_pages_length[OF f2(2)] by simp
  have ok: "page_ok f2 ?p"
    using f2(3) p0 n2 by (simp add: page_ok_def HDR_SIZE_def SLOT_SIZE_def PAGE_SIZE_def)
  have "find_free_slot f2 ?p 0 = Inr None"
    unfolding find_free_slot_def by (subst ffs_loop.simps) simp
  then have fr: "page_free f2 ?p = Inr 4088"
    using f2(3) by (simp add: page_free_def free_bytes_def HDR_SIZE_def SLOT_SIZE_def Let_def)
  have old: "file_read f2 a n = file_read f a n"
    if "0 \<le> a \<and> 0 \<le> n \<and> a + n \<le> ?p * 4096" for a n
  proof -
    have "file_read f2 a n = file_read ?f1 a n" using that by (intro f2(4)) simp
    also have "\<dots> = file_read f a n"
    proof -
      have "nat a + nat n \<le> length f" using that pl by linarith
      then show ?thesis using that by (simp add: file_read_def)
    qed
    finally show ?thesis .
  qed
  have l2: "length f2 = length f + 4096" using f2(2) by simp
  from e n2 l2 f2(3) ok fr old show ?thesis by blast
qed

lemma ensure_page_new_heap_ok:
  assumes "heap_ok f" "ensure_page f (num_pages f) = (f2, Inr ())"
  shows "heap_ok f2"
proof -
  from ensure_page_new[of f] assms(2) have
    n2: "num_pages f2 = num_pages f + 1" and ok: "page_ok f2 (num_pages f)"
    and old: "\<And>a n. 0 \<le> a \<and> 0 \<le> n \<and> a + n \<le> num_pages f * 4096
               \<Longrightarrow> file_read f2 a n = file_read f a n"
    by auto
  show ?thesis
    unfolding heap_ok_iff
  proof (intro allI impI)
    fix q assume q: "0 \<le> q \<and> q < num_pages f2"
    show "page_ok f2 q"
    proof (cases "q = num_pages f")
      case True with ok show ?thesis by simp
    next
      case False
      with q n2 have qf: "0 \<le> q" "q < num_pages f" by auto
      have "file_read f2 (q * 4096) 4 = file_read f (q * 4096) 4"
        using qf by (intro old) auto
      then have "read_hdr f2 q = read_hdr f q" by (rule read_hdr_cong)
      moreover have "page_ok f q" using assms(1) qf unfolding heap_ok_iff by blast
      ultimately show ?thesis using q qf by (simp add: page_ok_def)
    qed
  qed
qed

text \<open>What a successful placement leaves: a heap in order, and the row at its RID.\<close>

lemma place_fits_stored:
  assumes ok: "page_ok f p" and fr: "page_free f p = Inr free" and ne: "blob \<noteq> []"
    and fit: "int (length blob) \<le> free"
  shows "\<exists>f' s. place f p blob = (f', Inr (Some \<lparr> page = p, slot = s \<rparr>))
          \<and> length f' = length f \<and> stored f' \<lparr> page = p, slot = s \<rparr> blob
          \<and> (heap_ok f \<longrightarrow> heap_ok f')"
proof -
  from page_okD[OF ok] obtain ns de where
    hd: "read_hdr f p = Inr (ns, de)" and p: "0 \<le> p" "p < num_pages f"
    and g: "0 \<le> ns" "4 + ns * 4 \<le> de" "de \<le> 4096" by blast
  let ?len = "int (length blob)"
  from place_fits[OF ok hd fr ne fit] obtain f' s ns' where
    pf: "place f p blob = (f', Inr (Some \<lparr> page = p, slot = s \<rparr>))"
    "length f' = length f" "0 \<le> s" "s < ns'"
    "read_hdr f' p = Inr (ns', de - ?len)" "4 + ns' * 4 \<le> de - ?len"
    "read_slot f' p s = Inr (de - ?len, ?len)"
    "file_read f' (p * 4096 + (de - ?len)) ?len = Inr blob"
    "\<And>a n. a + n \<le> p * 4096 \<or> p * 4096 + 4096 \<le> a \<Longrightarrow> file_read f' a n = file_read f a n"
    by blast
  have np: "num_pages f' = num_pages f" by (rule num_pages_length[OF pf(2)])
  have len1: "?len \<noteq> 0" using ne by simp
  have st: "stored f' \<lparr> page = p, slot = s \<rparr> blob"
    using p np pf(3,4,5,7,8) len1
    by (simp add: stored_def live_rid_def page_base_def PAGE_SIZE_def)
  have hk: "heap_ok f'" if "heap_ok f"
    unfolding heap_ok_iff
  proof (intro allI impI)
    fix q assume q: "0 \<le> q \<and> q < num_pages f'"
    show "page_ok f' q"
    proof (cases "q = p")
      case True
      then show ?thesis
        using q pf(5,6) g(3) ne
        by (simp add: page_ok_def HDR_SIZE_def SLOT_SIZE_def PAGE_SIZE_def)
    next
      case False
      have "read_hdr f' q = read_hdr f q" by (rule read_hdr_outside[OF pf(9) False])
      from page_ok_cong[OF pf(2) this] that q np show ?thesis
        unfolding heap_ok_iff by simp
    qed
  qed
  from pf(1,2) st hk show ?thesis by blast
qed

text \<open>
  insert of a non-empty blob that passes the size check, in a heap whose last page is
  in order: the blob goes to the last page when it fits there, to a new page
  otherwise.
\<close>

lemma insert_blob_ok:
  assumes ne: "blob \<noteq> []" and sz: "int (length blob) + HDR_SIZE + SLOT_SIZE \<le> PAGE_SIZE"
    and np: "0 < num_pages f" and ok: "page_ok f (num_pages f - 1)"
    and fr: "page_free f (num_pages f - 1) = Inr free"
  shows "\<exists>f' s. insert_blob f blob
             = (f', Inr \<lparr> page = (if int (length blob) \<le> free then num_pages f - 1
                                   else num_pages f), slot = s \<rparr>)
          \<and> length f' = (if int (length blob) \<le> free then length f else length f + 4096)
          \<and> (int (length blob) \<le> free \<or> s = 0)
          \<and> stored f' \<lparr> page = (if int (length blob) \<le> free then num_pages f - 1
                                   else num_pages f), slot = s \<rparr> blob
          \<and> (heap_ok f \<longrightarrow> heap_ok f')"
proof (cases "int (length blob) \<le> free")
  case True
  from place_fits_stored[OF ok fr ne True] obtain f' s where
    pf: "place f (num_pages f - 1) blob = (f', Inr (Some \<lparr> page = num_pages f - 1, slot = s \<rparr>))"
    "length f' = length f" "stored f' \<lparr> page = num_pages f - 1, slot = s \<rparr> blob"
    "heap_ok f \<longrightarrow> heap_ok f'" by blast
  have "insert_blob f blob = (f', Inr \<lparr> page = num_pages f - 1, slot = s \<rparr>)"
    using sz np pf(1) by (simp add: insert_blob_def numeral_2_eq_2)
  with pf True show ?thesis by auto
next
  case False
  then have full: "place f (num_pages f - 1) blob = (f, Inr None)"
    by (intro place_full[OF ok fr]) simp
  from ensure_page_new[of f] obtain f2 where
    e: "ensure_page f (num_pages f) = (f2, Inr ())" "length f2 = length f + 4096"
    "page_ok f2 (num_pages f)" "page_free f2 (num_pages f) = Inr 4088" by blast
  have fit: "int (length blob) \<le> 4088"
    using sz by (simp add: HDR_SIZE_def SLOT_SIZE_def PAGE_SIZE_def)
  from place_fits_stored[OF e(3,4) ne fit] obtain f' s where
    pf: "place f2 (num_pages f) blob = (f', Inr (Some \<lparr> page = num_pages f, slot = s \<rparr>))"
    "length f' = length f2" "stored f' \<lparr> page = num_pages f, slot = s \<rparr> blob"
    "heap_ok f2 \<longrightarrow> heap_ok f'" by blast
  from page_okD[OF e(3)] obtain ns de where
    h2: "read_hdr f2 (num_pages f) = Inr (ns, de)" by blast
  from ensure_page_new[of f] e(1) have h0: "read_hdr f2 (num_pages f) = Inr (0, 4096)" by auto
  from place_fits[OF e(3) h0 e(4) ne fit] pf(1) have s0: "s = 0" by auto
  have "insert_blob f blob = (f', Inr \<lparr> page = num_pages f, slot = s \<rparr>)"
    using sz np full e(1) pf(1) by (simp add: insert_blob_def numeral_2_eq_2 Let_def)
  moreover have "heap_ok f \<longrightarrow> heap_ok f'"
    using ensure_page_new_heap_ok[OF _ e(1)] pf(4) by blast
  ultimately show ?thesis using pf e(2) False s0 by auto
qed

lemma insert_blob_empty_file:
  assumes ne: "blob \<noteq> []" and sz: "int (length blob) + HDR_SIZE + SLOT_SIZE \<le> PAGE_SIZE"
    and np: "num_pages f = 0"
  shows "\<exists>f'. insert_blob f blob = (f', Inr \<lparr> page = 0, slot = 0 \<rparr>)
          \<and> length f' = length f + 4096 \<and> stored f' \<lparr> page = 0, slot = 0 \<rparr> blob
          \<and> (heap_ok f \<longrightarrow> heap_ok f')"
proof -
  from ensure_page_new[of f] np obtain f2 where
    e: "ensure_page f 0 = (f2, Inr ())" "length f2 = length f + 4096"
    "page_ok f2 0" "page_free f2 0 = Inr 4088" "read_hdr f2 0 = Inr (0, 4096)" by auto
  have fit: "int (length blob) \<le> 4088"
    using sz by (simp add: HDR_SIZE_def SLOT_SIZE_def PAGE_SIZE_def)
  from place_fits_stored[OF e(3,4) ne fit] obtain f' s where
    pf: "place f2 0 blob = (f', Inr (Some \<lparr> page = 0, slot = s \<rparr>))"
    "length f' = length f2" "stored f' \<lparr> page = 0, slot = s \<rparr> blob"
    "heap_ok f2 \<longrightarrow> heap_ok f'" by blast
  from place_fits[OF e(3,5,4) ne fit] pf(1) have s0: "s = 0" by auto
  have n2: "num_pages f2 = 1" using ensure_page_new[of f] e(1) np by auto
  have "insert_blob f blob = (f', Inr \<lparr> page = 0, slot = s \<rparr>)"
    using sz np e(1) n2 pf(1) by (simp add: insert_blob_def numeral_2_eq_2)
  moreover have "heap_ok f \<longrightarrow> heap_ok f'"
    using ensure_page_new_heap_ok[of f f2] e(1) np pf(4) by auto
  ultimately show ?thesis using pf e(2) s0 by auto
qed

lemma aligned_length:
  "aligned f \<Longrightarrow> length f' = length f \<Longrightarrow> aligned f'"
  by (simp add: aligned_def num_pages_def)

lemma aligned_grow:
  assumes "aligned f" "length f' = length f + 4096"
  shows "aligned f'"
proof -
  have "(int (length f) + 4096) div 4096 = int (length f) div 4096 + 1" by simp
  with assms show ?thesis
    unfolding aligned_def num_pages_def PAGE_SIZE_def by (simp add: algebra_simps)
qed

text \<open>delete of a RID whose page is in order.\<close>

lemma heap_delete_ok:
  assumes ok: "page_ok f (page r)"
  shows "(live_rid f r \<longrightarrow>
            (\<exists>f' off ln. read_slot f (page r) (slot r) = Inr (off, ln)
                \<and> heap_delete f r = (f', Inr True)
                \<and> read_slot f' (page r) (slot r) = Inr (off, 0)
                \<and> \<not> live_rid f' r \<and> length f' = length f
                \<and> (\<forall>q. read_hdr f' q = read_hdr f q)))
       \<and> (\<not> live_rid f r \<longrightarrow> heap_delete f r = (f, Inr False))"
proof -
  from page_okD[OF ok] obtain ns de where
    hd: "read_hdr f (page r) = Inr (ns, de)" and p: "0 \<le> page r" "page r < num_pages f"
    and g: "0 \<le> ns" "4 + ns * 4 \<le> de" "de \<le> 4096" by blast
  show ?thesis
  proof (cases "slot r < 0 \<or> slot r \<ge> ns")
    case True
    then have "\<not> live_rid f r" using hd by (auto simp: live_rid_def)
    moreover have "heap_delete f r = (f, Inr False)" using hd True by (simp add: heap_delete_def)
    ultimately show ?thesis by simp
  next
    case False
    then have s: "0 \<le> slot r" "slot r < ns" by auto
    have s4: "4 + 4 * slot r + 4 \<le> 4096" using s g by linarith
    from read_slot_in[OF p s(1) s4] obtain off ln where
      rs: "read_slot f (page r) (slot r) = Inr (off, ln)" "0 \<le> off" "off < 65536" by blast
    show ?thesis
    proof (cases "ln = 0")
      case True
      then have "\<not> live_rid f r" using hd rs by (auto simp: live_rid_def)
      moreover have "heap_delete f r = (f, Inr False)"
        using hd False rs True by (simp add: heap_delete_def)
      ultimately show ?thesis by simp
    next
      case nz: False
      have lv: "live_rid f r" using hd rs nz s p by (simp add: live_rid_def)
      from write_slot_in[OF p s(1) s4 rs(2,3), of 0] obtain f' where
        w: "write_slot f (page r) (slot r) off 0 = Inr f'" "length f' = length f"
        "read_slot f' (page r) (slot r) = Inr (off, 0)"
        "\<And>a n. a + n \<le> page r * 4096 + 4 + slot r * 4 \<or> page r * 4096 + 4 + slot r * 4 + 4 \<le> a
            \<Longrightarrow> file_read f' a n = file_read f a n"
        by auto
      have d: "heap_delete f r = (f', Inr True)"
        using hd False rs nz w(1) by (simp add: heap_delete_def)
      have hs: "read_hdr f' q = read_hdr f q" for q
      proof -
        have "q * 4096 + 4 \<le> page r * 4096 + 4 + slot r * 4
              \<or> page r * 4096 + 4 + slot r * 4 + 4 \<le> q * 4096"
          using s s4 by (cases "q \<le> page r") auto
        from w(4)[OF this] show ?thesis by (rule read_hdr_cong)
      qed
      have nl: "\<not> live_rid f' r" using w(3) by (auto simp: live_rid_def split: sum.splits)
      from lv rs(1) d w(2,3) nl hs show ?thesis by blast
    qed
  qed
qed

lemma heap_delete_no_page:
  assumes "aligned f" "page r < 0 \<or> num_pages f \<le> page r"
  shows "heap_delete f r = (f, Inl (if page r < 0 then OSError else StructError))"
proof (cases "page r < 0")
  case True
  then have "page r * 4096 < 0" by simp
  then show ?thesis
    using True by (simp add: heap_delete_def read_hdr_def file_read_def page_base_def PAGE_SIZE_def)
next
  case False
  with assms have "int (length f) \<le> page r * 4096"
    by (simp add: aligned_def PAGE_SIZE_def)
  then have "drop (nat (page r * 4096)) f = []" by simp
  then show ?thesis
    using False
    by (simp add: heap_delete_def read_hdr_def file_read_def page_base_def PAGE_SIZE_def
        unpack_HH_def HDR_SIZE_def)
qed

lemma heap_delete_inv:
  assumes "heap_ok f" "aligned f" "heap_delete f r = (f', res)"
  shows "heap_ok f' \<and> aligned f'"
proof (cases "0 \<le> page r \<and> page r < num_pages f")
  case False
  then have "page r < 0 \<or> num_pages f \<le> page r" by linarith
  from heap_delete_no_page[OF assms(2) this] assms show ?thesis by simp
next
  case True
  then have ok: "page_ok f (page r)" using assms(1) unfolding heap_ok_iff by blast
  show ?thesis
  proof (cases "live_rid f r")
    case False
    with heap_delete_ok[OF ok] assms show ?thesis by simp
  next
    case True
    with heap_delete_ok[OF ok] assms(3) have
      l: "length f' = length f" and h: "\<And>q. read_hdr f' q = read_hdr f q" by auto
    have "page_ok f' q = page_ok f q" for q by (rule page_ok_cong[OF l h])
    then have "heap_ok f'" using assms(1) num_pages_length[OF l] unfolding heap_ok_iff by simp
    with aligned_length[OF assms(2) l] show ?thesis by simp
  qed
qed

text \<open>An encoded row has at least its two bytes of column count.\<close>

lemma pack_row_length:
  assumes "pack_row rw sch = Inr blob"
  shows "2 \<le> length blob"
proof -
  from assms obtain header nullmap parts where
    "pack_H (int (length sch)) = Inr header" "blob = header @ nullmap @ parts"
    by (auto simp: pack_row_def Let_def split: sum.splits)
  moreover from this have "length header = 2" by (auto simp: pack_H_def split: if_splits)
  ultimately show ?thesis by simp
qed

lemma insert_blob_inv:
  assumes "heap_ok f" "aligned f" "blob \<noteq> []" "insert_blob f blob = (f', res)"
  shows "heap_ok f' \<and> aligned f'"
proof (cases "int (length blob) + HDR_SIZE + SLOT_SIZE \<le> PAGE_SIZE")
  case False
  with assms show ?thesis by (simp add: insert_blob_def)
next
  case sz: True
  have n0: "0 \<le> num_pages f" by (simp add: num_pages_def PAGE_SIZE_def)
  show ?thesis
  proof (cases "num_pages f = 0")
    case True
    from insert_blob_empty_file[OF assms(3) sz True] assms(1,2,4) aligned_grow[OF assms(2)]
    show ?thesis by auto
  next
    case False
    with n0 have np: "0 < num_pages f" by simp
    then have ok: "page_ok f (num_pages f - 1)" using assms(1) unfolding heap_ok_iff by simp
    from page_free_ok[OF ok] obtain free where fr: "page_free f (num_pages f - 1) = Inr free"
      by blast
    from insert_blob_ok[OF assms(3) sz np ok fr] assms(1,4) obtain s where
      "heap_ok f'"
      "length f' = (if int (length blob) \<le> free then length f else length f + 4096)"
      by auto
    with aligned_grow[OF assms(2)] aligned_length[OF assms(2)] show ?thesis
      by (auto split: if_splits)
  qed
qed

lemma heap_reachable_inv: "heap_reachable sch f \<Longrightarrow> heap_ok f \<and> aligned f"
proof (induction rule: heap_reachable.induct)
  case hreach_empty
  show ?case by (simp add: heap_ok_def aligned_def num_pages_def)
next
  case (hreach_insert f rw f' r)
  show ?case
  proof (cases "pack_row rw sch")
    case (Inl err)
    with hreach_insert show ?thesis by (simp add: heap_insert_def)
  next
    case (Inr blob)
    from pack_row_length[OF Inr] have ne: "blob \<noteq> []" by auto
    from Inr hreach_insert.hyps(2) have "insert_blob f blob = (f', r)"
      by (simp add: heap_insert_def)
    from insert_blob_inv[OF _ _ ne this] hreach_insert.IH show ?thesis by simp
  qed
next
  case (hreach_delete f rd f' r)
  from heap_delete_inv[OF _ _ hreach_delete.hyps(2)] hreach_delete.IH show ?case by simp
qed

lemma num_pages_grow: "length f' = length f + 4096 \<Longrightarrow> num_pages f' = num_pages f + 1"
  by (simp add: num_pages_def PAGE_SIZE_def)

text \<open>A blob that passes the size check fits a page that was just added.\<close>

lemma fresh_page_fits:
  assumes ne: "blob \<noteq> []" and sz: "int (length blob) + HDR_SIZE + SLOT_SIZE \<le> PAGE_SIZE"
  shows "\<exists>f2 f'. ensure_page f (num_pages f) = (f2, Inr ())
           \<and> place f2 (num_pages f) blob = (f', Inr (Some \<lparr> page = num_pages f, slot = 0 \<rparr>))"
proof -
  from ensure_page_new[of f] obtain f2 where
    e: "ensure_page f (num_pages f) = (f2, Inr ())" "page_ok f2 (num_pages f)"
    "page_free f2 (num_pages f) = Inr 4088" "read_hdr f2 (num_pages f) = Inr (0, 4096)" by auto
  have fit: "int (length blob) \<le> 4088"
    using sz by (simp add: HDR_SIZE_def SLOT_SIZE_def PAGE_SIZE_def)
  from place_fits[OF e(2,4,3) ne fit] obtain f' s where
    "place f2 (num_pages f) blob = (f', Inr (Some \<lparr> page = num_pages f, slot = s \<rparr>))" "s = 0"
    by auto
  with e(1) show ?thesis by blast
qed

text \<open>insert of a row on a heap in order: where the row goes, and what is left.\<close>

lemma heap_insert_ok:
  assumes ok: "heap_ok f" and pk: "pack_row rw sch = Inr blob"
    and sz: "int (length blob) + HDR_SIZE + SLOT_SIZE \<le> PAGE_SIZE"
  shows "\<exists>f' r. heap_insert sch f rw = (f', Inr r) \<and> stored f' r blob \<and> heap_ok f'
           \<and> (num_pages f = 0 \<longrightarrow> r = \<lparr> page = 0, slot = 0 \<rparr> \<and> num_pages f' = 1)
           \<and> (0 < num_pages f \<longrightarrow>
                (\<exists>free. page_free f (num_pages f - 1) = Inr free
                   \<and> (int (length blob) \<le> free \<longrightarrow>
                         page r = num_pages f - 1 \<and> num_pages f' = num_pages f)
                   \<and> (free < int (length blob) \<longrightarrow>
                         r = \<lparr> page = num_pages f, slot = 0 \<rparr>
                         \<and> num_pages f' = num_pages f + 1)))"
proof -
  from pack_row_length[OF pk] have ne: "blob \<noteq> []" by auto
  have hi: "heap_insert sch f rw = insert_blob f blob" using pk by (simp add: heap_insert_def)
  have n0: "0 \<le> num_pages f" by (simp add: num_pages_def PAGE_SIZE_def)
  show ?thesis
  proof (cases "num_pages f = 0")
    case True
    from insert_blob_empty_file[OF ne sz True] ok obtain f' where
      e: "insert_blob f blob = (f', Inr \<lparr> page = 0, slot = 0 \<rparr>)"
      "length f' = length f + 4096" "stored f' \<lparr> page = 0, slot = 0 \<rparr> blob" "heap_ok f'"
      by auto
    from num_pages_grow[OF e(2)] True have "num_pages f' = 1" by simp
    with e hi True show ?thesis by simp
  next
    case False
    with n0 have np: "0 < num_pages f" by simp
    then have pok: "page_ok f (num_pages f - 1)" using ok unfolding heap_ok_iff by simp
    from page_free_ok[OF pok] obtain free where fr: "page_free f (num_pages f - 1) = Inr free"
      by blast
    show ?thesis
    proof (cases "int (length blob) \<le> free")
      case True
      from insert_blob_ok[OF ne sz np pok fr] True ok obtain f' s where
        e: "insert_blob f blob = (f', Inr \<lparr> page = num_pages f - 1, slot = s \<rparr>)"
        "length f' = length f" "stored f' \<lparr> page = num_pages f - 1, slot = s \<rparr> blob"
        "heap_ok f'" by auto
      from e hi fr True np num_pages_length[OF e(2)] show ?thesis by simp
    next
      case False
      from insert_blob_ok[OF ne sz np pok fr] False ok obtain f' where
        e: "insert_blob f blob = (f', Inr \<lparr> page = num_pages f, slot = 0 \<rparr>)"
        "length f' = length f + 4096" "stored f' \<lparr> page = num_pages f, slot = 0 \<rparr> blob"
        "heap_ok f'" by auto
      from e hi fr False np num_pages_grow[OF e(2)] show ?thesis by simp
    qed
  qed
qed

text \<open>The search of insert finds the first free slot of the directory.\<close>

lemma ffs_loop_first:
  "0 \<le> s \<Longrightarrow> 0 \<le> p \<Longrightarrow> p < num_pages f \<Longrightarrow> 4 + nslots * 4 \<le> 4096 \<Longrightarrow>
   ffs_loop f p nslots s
     = Inr (case filter (slot_is_free f p) (map int [nat s..<nat nslots]) of
              [] \<Rightarrow> None | x # rest \<Rightarrow> Some x)"
proof (induction f p nslots s rule: ffs_loop.induct)
  case (1 f p nslots s)
  show ?case
  proof (cases "s < nslots")
    case False
    then have "[nat s..<nat nslots] = []" by simp
    with False show ?thesis by (subst ffs_loop.simps) simp
  next
    case True
    have "4 + 4 * s + 4 \<le> 4096" using True "1.prems" by linarith
    from read_slot_in[OF "1.prems"(2,3,1) this] obtain off ln where
      rs: "read_slot f p s = Inr (off, ln)" by blast
    have u: "[nat s..<nat nslots] = nat s # [nat (s + 1)..<nat nslots]"
      using True "1.prems"(1) by (simp add: upt_conv_Cons nat_add_distrib)
    have ns: "int (nat s) = s" using "1.prems"(1) by simp
    show ?thesis
    proof (cases "ln = 0")
      case z: True
      have "ffs_loop f p nslots s = Inr (Some s)"
        using True rs z by (subst ffs_loop.simps) simp
      moreover have "slot_is_free f p s" using rs z by (simp add: slot_is_free_def)
      ultimately show ?thesis unfolding u using "1.prems"(1) by simp
    next
      case nz: False
      have st: "ffs_loop f p nslots s = ffs_loop f p nslots (s + 1)"
        using True rs nz by (subst ffs_loop.simps) simp
      have nf: "\<not> slot_is_free f p s" using rs nz by (simp add: slot_is_free_def)
      have "ffs_loop f p nslots (s + 1)
              = Inr (case filter (slot_is_free f p) (map int [nat (s + 1)..<nat nslots]) of
                       [] \<Rightarrow> None | x # rest \<Rightarrow> Some x)"
        using "1.prems" by (intro "1.IH"[OF True rs refl nz]) auto
      then show ?thesis unfolding st u using nf "1.prems"(1) by simp
    qed
  qed
qed

lemma find_free_slot_first:
  assumes "page_ok f p" "read_hdr f p = Inr (ns, de)"
  shows "find_free_slot f p ns
           = Inr (case free_slots f p ns of [] \<Rightarrow> None | x # rest \<Rightarrow> Some x)"
proof -
  from page_okD[OF assms(1)] obtain ns0 de0 where
    h: "read_hdr f p = Inr (ns0, de0)" "0 \<le> p" "p < num_pages f"
    "4 + ns0 * 4 \<le> de0" "de0 \<le> 4096" by blast
  from h(1) assms(2) have "ns0 = ns" by simp
  with h have "0 \<le> p" "p < num_pages f" "4 + ns * 4 \<le> 4096" by auto
  from ffs_loop_first[OF _ this, of 0] show ?thesis
    by (simp add: find_free_slot_def free_slots_def)
qed

lemma place_slot:
  assumes "page_ok f p" "place f p blob = (f', Inr (Some r))"
  shows "r = \<lparr> page = p, slot = spec_slot f p \<rparr>"
proof -
  from page_okD[OF assms(1)] obtain ns de where hd: "read_hdr f p = Inr (ns, de)" by blast
  note fs = find_free_slot_first[OF assms(1) hd]
  show ?thesis
  proof (cases "free_slots f p ns")
    case Nil
    with fs have "find_free_slot f p ns = Inr None" by simp
    with assms(2) hd Nil show ?thesis
      by (auto simp: place_def Let_def spec_slot_def split: if_splits sum.splits)
  next
    case (Cons x rest)
    with fs have "find_free_slot f p ns = Inr (Some x)" by simp
    with assms(2) hd Cons show ?thesis
      by (auto simp: place_def Let_def spec_slot_def split: if_splits sum.splits)
  qed
qed

text \<open>What insert takes for the free bytes of a page is the free space of the specification.\<close>

lemma page_free_spec:
  assumes "page_ok f p"
  shows "page_free f p = Inr (max 0 (spec_free f p))"
proof -
  from page_okD[OF assms] obtain ns de where hd: "read_hdr f p = Inr (ns, de)" by blast
  from find_free_slot_first[OF assms hd] hd show ?thesis
    by (cases "free_slots f p ns")
      (simp_all add: page_free_def spec_free_def free_bytes_def HDR_SIZE_def SLOT_SIZE_def)
qed

lemma insert_blob_place:
  assumes "int (length blob) + HDR_SIZE + SLOT_SIZE \<le> PAGE_SIZE" "0 < num_pages f"
    and "place f (num_pages f - 1) blob = (f', Inr (Some r))"
  shows "insert_blob f blob = (f', Inr r)"
  using assms by (simp add: insert_blob_def numeral_2_eq_2)

section \<open>delete on the heap\<close>

text \<open>
  C2.  delete of a RID whose page index is at or beyond the number of pages of the file
  does not return false.  On the empty heap file, which has no page, the RID (0, 0) names
  no live row; \<open>delete\<close> reads the header of page 0 without a check of the page index, the
  read is short, and the call ends in \<open>struct.error\<close>.
\<close>

theorem heap_delete_page_beyond:
  "\<not> live_rid [] \<lparr> page = 0, slot = 0 \<rparr>
   \<and> num_pages [] \<le> page \<lparr> page = 0, slot = 0 \<rparr>
   \<and> heap_delete [] \<lparr> page = 0, slot = 0 \<rparr> = ([], Inl StructError)"
  by code_simp

text \<open>
  For a RID whose page is in the file, on a heap in order, delete does what is expected
  of it: it returns true when the RID names a live row, sets the length of the slot to 0
  and leaves its offset, after which the RID is not live; it returns false and leaves the
  file as it is when the slot index is negative, or at or beyond \<open>nslots\<close>, or the slot is
  already free.
\<close>

lemma heap_delete_in_file:
  assumes "heap_ok f"
  shows "(live_rid f r \<longrightarrow>
            (\<exists>f' off ln. read_slot f (page r) (slot r) = Inr (off, ln)
                \<and> heap_delete f r = (f', Inr True)
                \<and> read_slot f' (page r) (slot r) = Inr (off, 0)
                \<and> \<not> live_rid f' r))
       \<and> (0 \<le> page r \<and> page r < num_pages f \<and> \<not> live_rid f r
             \<longrightarrow> heap_delete f r = (f, Inr False))"
proof -
  have a: "\<exists>f' off ln. read_slot f (page r) (slot r) = Inr (off, ln)
                \<and> heap_delete f r = (f', Inr True)
                \<and> read_slot f' (page r) (slot r) = Inr (off, 0)
                \<and> \<not> live_rid f' r" if lv: "live_rid f r"
  proof -
    from lv have "0 \<le> page r \<and> page r < num_pages f" by (simp add: live_rid_def)
    then have ok: "page_ok f (page r)" using assms unfolding heap_ok_iff by blast
    from heap_delete_ok[OF ok] lv show ?thesis by blast
  qed
  have b: "heap_delete f r = (f, Inr False)"
    if "0 \<le> page r \<and> page r < num_pages f \<and> \<not> live_rid f r"
  proof -
    from that have ok: "page_ok f (page r)" using assms unfolding heap_ok_iff by blast
    from heap_delete_ok[OF ok] that show ?thesis by blast
  qed
  from a b show ?thesis by blast
qed

section \<open>insert at the boundary of the free space\<close>

text \<open>
  C7.  On a heap file in order with at least one page, for a row whose encoded blob
  passes the size check.  The free bytes of the last page are \<open>data_end\<close> minus the end
  of the directory, the directory counting one slot more when no slot of the page is free
  and the row needs a new one (\<open>spec_free\<close>).  A blob of exactly that many bytes is placed
  in the last page: the RID returned is on that page, in the first free slot when there
  is one and in slot \<open>nslots\<close> otherwise (\<open>spec_slot\<close>), the number of pages is unchanged
  and the blob is stored at the RID.  A blob one byte larger goes to a new page: the RID
  returned is slot 0 of the page whose index is the previous number of pages.
\<close>

theorem insert_boundary:
  assumes "heap_ok f" "0 < num_pages f" "pack_row rw sch = Inr blob"
    and "int (length blob) + HDR_SIZE + SLOT_SIZE \<le> PAGE_SIZE"
  shows "(int (length blob) = spec_free f (num_pages f - 1) \<longrightarrow>
            (\<exists>f'. heap_insert sch f rw
                     = (f', Inr \<lparr> page = num_pages f - 1,
                                 slot = spec_slot f (num_pages f - 1) \<rparr>)
                \<and> num_pages f' = num_pages f
                \<and> stored f' \<lparr> page = num_pages f - 1,
                              slot = spec_slot f (num_pages f - 1) \<rparr> blob))
       \<and> (int (length blob) = spec_free f (num_pages f - 1) + 1 \<longrightarrow>
            (\<exists>f'. heap_insert sch f rw = (f', Inr \<lparr> page = num_pages f, slot = 0 \<rparr>)
                \<and> num_pages f' = num_pages f + 1
                \<and> stored f' \<lparr> page = num_pages f, slot = 0 \<rparr> blob))"
proof -
  let ?p = "num_pages f - 1"
  let ?len = "int (length blob)"
  from pack_row_length[OF assms(3)] have l2: "2 \<le> ?len" and ne: "blob \<noteq> []" by auto
  have hi: "heap_insert sch f rw = insert_blob f blob"
    using assms(3) by (simp add: heap_insert_def)
  have pok: "page_ok f ?p" using assms(1,2) unfolding heap_ok_iff by simp
  note fr = page_free_spec[OF pok]
  have a: "\<exists>f'. heap_insert sch f rw = (f', Inr \<lparr> page = ?p, slot = spec_slot f ?p \<rparr>)
                \<and> num_pages f' = num_pages f
                \<and> stored f' \<lparr> page = ?p, slot = spec_slot f ?p \<rparr> blob"
    if e: "?len = spec_free f ?p"
  proof -
    have fit: "?len \<le> max 0 (spec_free f ?p)" using e by simp
    from place_fits_stored[OF pok fr ne fit] obtain f' s where
      pl: "place f ?p blob = (f', Inr (Some \<lparr> page = ?p, slot = s \<rparr>))"
      "length f' = length f" "stored f' \<lparr> page = ?p, slot = s \<rparr> blob" by blast
    from place_slot[OF pok pl(1)] have s: "s = spec_slot f ?p" by simp
    from insert_blob_place[OF assms(4,2) pl(1)] hi
    have "heap_insert sch f rw = (f', Inr \<lparr> page = ?p, slot = s \<rparr>)" by simp
    with pl(2,3) num_pages_length[OF pl(2)] s show ?thesis by blast
  qed
  have b: "\<exists>f'. heap_insert sch f rw = (f', Inr \<lparr> page = num_pages f, slot = 0 \<rparr>)
                \<and> num_pages f' = num_pages f + 1
                \<and> stored f' \<lparr> page = num_pages f, slot = 0 \<rparr> blob"
    if e: "?len = spec_free f ?p + 1"
  proof -
    have big: "max 0 (spec_free f ?p) < ?len" using e l2 by simp
    from heap_insert_ok[OF assms(1,3,4)] assms(2) fr obtain f' r where
      h: "heap_insert sch f rw = (f', Inr r)" "stored f' r blob"
      "max 0 (spec_free f ?p) < ?len \<longrightarrow>
         r = \<lparr> page = num_pages f, slot = 0 \<rparr> \<and> num_pages f' = num_pages f + 1"
      by auto
    with big show ?thesis by auto
  qed
  from a b show ?thesis by blast
qed

theorem insert_boundary_witness:
  "pack_row [''a'' \<mapsto> VInt 7] [(''a'', ''INT'')] = Inr [1, 0, 0, 7, 0, 0, 0]
   \<and> heap_ok ([1, 0, 19, 0, 19, 0, 237, 15] @ replicate 4088 1)
   \<and> spec_free ([1, 0, 19, 0, 19, 0, 237, 15] @ replicate 4088 1) 0 = 7
   \<and> snd (heap_insert [(''a'', ''INT'')] ([1, 0, 19, 0, 19, 0, 237, 15] @ replicate 4088 1)
            [''a'' \<mapsto> VInt 7]) = Inr \<lparr> page = 0, slot = 1 \<rparr>
   \<and> heap_ok ([1, 0, 18, 0, 18, 0, 238, 15] @ replicate 4088 1)
   \<and> spec_free ([1, 0, 18, 0, 18, 0, 238, 15] @ replicate 4088 1) 0 = 6
   \<and> snd (heap_insert [(''a'', ''INT'')] ([1, 0, 18, 0, 18, 0, 238, 15] @ replicate 4088 1)
            [''a'' \<mapsto> VInt 7]) = Inr \<lparr> page = 1, slot = 0 \<rparr>
   \<and> heap_ok ([2, 0, 19, 0, 100, 0, 0, 0, 19, 0, 237, 15] @ replicate 4084 1)
   \<and> spec_free ([2, 0, 19, 0, 100, 0, 0, 0, 19, 0, 237, 15] @ replicate 4084 1) 0 = 7
   \<and> snd (heap_insert [(''a'', ''INT'')]
            ([2, 0, 19, 0, 100, 0, 0, 0, 19, 0, 237, 15] @ replicate 4084 1)
            [''a'' \<mapsto> VInt 7]) = Inr \<lparr> page = 0, slot = 0 \<rparr>
   \<and> heap_ok ([2, 0, 18, 0, 100, 0, 0, 0, 18, 0, 238, 15] @ replicate 4084 1)
   \<and> spec_free ([2, 0, 18, 0, 100, 0, 0, 0, 18, 0, 238, 15] @ replicate 4084 1) 0 = 6
   \<and> snd (heap_insert [(''a'', ''INT'')]
            ([2, 0, 18, 0, 100, 0, 0, 0, 18, 0, 238, 15] @ replicate 4084 1)
            [''a'' \<mapsto> VInt 7]) = Inr \<lparr> page = 1, slot = 0 \<rparr>"
proof -
  define f1 :: heapfile where "f1 = [1, 0, 19, 0, 19, 0, 237, 15] @ replicate 4088 1"
  define g1 :: heapfile where "g1 = [1, 0, 18, 0, 18, 0, 238, 15] @ replicate 4088 1"
  define f2 :: heapfile where
    "f2 = [2, 0, 19, 0, 100, 0, 0, 0, 19, 0, 237, 15] @ replicate 4084 1"
  define g2 :: heapfile where
    "g2 = [2, 0, 18, 0, 100, 0, 0, 0, 18, 0, 238, 15] @ replicate 4084 1"
  let ?sch = "[(''a'', ''INT'')]"
  let ?rw = "[''a'' \<mapsto> VInt 7]"
  note rd = read_hdr_def read_slot_def file_read_def page_base_def PAGE_SIZE_def HDR_SIZE_def
    SLOT_SIZE_def unpack_HH_def
  have pk: "pack_row ?rw ?sch = Inr [1, 0, 0, 7, 0, 0, 0]" by code_simp
  have sz: "int (length [1, 0, 0, 7, 0, 0, 0 :: byte]) + HDR_SIZE + SLOT_SIZE \<le> PAGE_SIZE"
    by (simp add: HDR_SIZE_def SLOT_SIZE_def PAGE_SIZE_def)
  have np: "num_pages f1 = 1" "num_pages g1 = 1" "num_pages f2 = 1" "num_pages g2 = 1"
    unfolding f1_def g1_def f2_def g2_def by (simp_all add: num_pages_def PAGE_SIZE_def)
  have hd: "read_hdr f1 0 = Inr (1, 19)" "read_hdr g1 0 = Inr (1, 18)"
    "read_hdr f2 0 = Inr (2, 19)" "read_hdr g2 0 = Inr (2, 18)"
    unfolding f1_def g1_def f2_def g2_def by (simp_all add: rd)
  have sl: "read_slot f1 0 0 = Inr (19, 4077)" "read_slot g1 0 0 = Inr (18, 4078)"
    "read_slot f2 0 0 = Inr (100, 0)" "read_slot f2 0 1 = Inr (19, 4077)"
    "read_slot g2 0 0 = Inr (100, 0)" "read_slot g2 0 1 = Inr (18, 4078)"
    unfolding f1_def g1_def f2_def g2_def by (simp_all add: rd)
  have ok: "heap_ok f1" "heap_ok g1" "heap_ok f2" "heap_ok g2"
    by (simp_all add: heap_ok_def page_ok_def np hd HDR_SIZE_def SLOT_SIZE_def PAGE_SIZE_def)
  have fs: "free_slots f1 0 1 = []" "free_slots g1 0 1 = []"
    "free_slots f2 0 2 = [0]" "free_slots g2 0 2 = [0]"
    by (simp_all add: free_slots_def slot_is_free_def sl numeral_2_eq_2)
  have fr: "spec_free f1 0 = 7" "spec_free g1 0 = 6" "spec_free f2 0 = 7" "spec_free g2 0 = 6"
    by (simp_all add: spec_free_def hd fs)
  have ss: "spec_slot f1 0 = 1" "spec_slot f2 0 = 0"
    by (simp_all add: spec_slot_def hd fs)
  from insert_boundary[OF ok(1) _ pk sz] np(1) fr(1) ss(1)
  have a1: "snd (heap_insert ?sch f1 ?rw) = Inr \<lparr> page = 0, slot = 1 \<rparr>" by auto
  from insert_boundary[OF ok(2) _ pk sz] np(2) fr(2)
  have b1: "snd (heap_insert ?sch g1 ?rw) = Inr \<lparr> page = 1, slot = 0 \<rparr>" by auto
  from insert_boundary[OF ok(3) _ pk sz] np(3) fr(3) ss(2)
  have a2: "snd (heap_insert ?sch f2 ?rw) = Inr \<lparr> page = 0, slot = 0 \<rparr>" by auto
  from insert_boundary[OF ok(4) _ pk sz] np(4) fr(4)
  have b2: "snd (heap_insert ?sch g2 ?rw) = Inr \<lparr> page = 1, slot = 0 \<rparr>" by auto
  from pk ok fr a1 b1 a2 b2 show ?thesis unfolding f1_def g1_def f2_def g2_def by blast
qed

section \<open>insert always finds room\<close>

text \<open>
  C8.  For a row whose encoded blob satisfies
  \<open>len(blob) + HDR_SIZE + SLOT_SIZE \<le> PAGE_SIZE\<close>: a page just allocated at the end of
  any file takes the blob, in its slot 0, so the second pass of the loop of insert
  always returns; and on a heap file in order insert returns a RID, at which the blob
  is then stored, and leaves the heap in order.  The \<open>RuntimeError\<close> after the loop is
  not reached.
\<close>

theorem insert_succeeds:
  assumes "pack_row rw sch = Inr blob"
    and "int (length blob) + HDR_SIZE + SLOT_SIZE \<le> PAGE_SIZE"
  shows "(\<forall>f. \<exists>f2 f'. ensure_page f (num_pages f) = (f2, Inr ())
              \<and> place f2 (num_pages f) blob
                  = (f', Inr (Some \<lparr> page = num_pages f, slot = 0 \<rparr>)))
       \<and> (\<forall>f. heap_ok f \<longrightarrow>
              (\<exists>f' r. heap_insert sch f rw = (f', Inr r) \<and> stored f' r blob \<and> heap_ok f'))"
proof -
  from pack_row_length[OF assms(1)] have ne: "blob \<noteq> []" by auto
  have a: "\<exists>f2 f'. ensure_page f (num_pages f) = (f2, Inr ())
              \<and> place f2 (num_pages f) blob
                  = (f', Inr (Some \<lparr> page = num_pages f, slot = 0 \<rparr>))" for f
    by (rule fresh_page_fits[OF ne assms(2)])
  have b: "\<exists>f' r. heap_insert sch f rw = (f', Inr r) \<and> stored f' r blob \<and> heap_ok f'"
    if "heap_ok f" for f
    using heap_insert_ok[OF that assms] by blast
  from a b show ?thesis by blast
qed

theorem insert_succeeds_witness:
  "pack_row [''a'' \<mapsto> VInt 7] [(''a'', ''INT'')] = Inr [1, 0, 0, 7, 0, 0, 0]
   \<and> heap_ok []
   \<and> (\<exists>f' r. heap_insert [(''a'', ''INT'')] [] [''a'' \<mapsto> VInt 7] = (f', Inr r)
         \<and> stored f' r [1, 0, 0, 7, 0, 0, 0] \<and> heap_ok f')"
proof -
  have pk: "pack_row [''a'' \<mapsto> VInt 7] [(''a'', ''INT'')] = Inr [1, 0, 0, 7, 0, 0, 0]"
    by code_simp
  have sz: "int (length [1, 0, 0, 7, 0, 0, 0 :: byte]) + HDR_SIZE + SLOT_SIZE \<le> PAGE_SIZE"
    by (simp add: HDR_SIZE_def SLOT_SIZE_def PAGE_SIZE_def)
  have ok: "heap_ok []" by code_simp
  from insert_succeeds[OF pk sz] ok pk show ?thesis by blast
qed

lemma bit_test: "(drop_bit k (w :: byte) AND 1 = 1) = bit w k"
  by (simp add: and_one_eq bit_iff_odd_drop_bit mod_2_eq_odd)

lemma is_null_bit: "k div 8 < length bm \<Longrightarrow> is_null bm k = Inr (bit (bm ! (k div 8)) (k mod 8))"
  unfolding is_null_def bit_test by simp

lemma set_null_is_null:
  assumes "set_null bm i = Inr bm'"
  shows "length bm' = length bm"
    and "j div 8 < length bm \<Longrightarrow> is_null bm' j = (if j = i then Inr True else is_null bm j)"
proof -
  from assms have i: "i div 8 < length bm"
    and bm': "bm' = bm[i div 8 := (bm ! (i div 8)) OR push_bit (i mod 8) 1]"
    by (auto simp: set_null_def split: if_splits)
  show l: "length bm' = length bm" using bm' by simp
  assume j: "j div 8 < length bm"
  have m: "i mod 8 < 8" by simp
  have n1: "is_null bm' j = Inr (bit (bm' ! (j div 8)) (j mod 8))"
    using j l by (simp add: is_null_bit)
  have n2: "is_null bm j = Inr (bit (bm ! (j div 8)) (j mod 8))"
    using j by (simp add: is_null_bit)
  show "is_null bm' j = (if j = i then Inr True else is_null bm j)"
  proof (cases "j div 8 = i div 8")
    case True
    have "j = i \<longleftrightarrow> j mod 8 = i mod 8"
      using True by (metis div_mult_mod_eq)
    moreover have "bm' ! (j div 8) = (bm ! (i div 8)) OR push_bit (i mod 8) 1"
      using True i bm' by simp
    ultimately show ?thesis
      unfolding n1 n2 using True m
      by (auto simp: bit_or_iff bit_exp_iff possible_bit_word)
  next
    case False
    then have "j \<noteq> i" by auto
    moreover have "bm' ! (j div 8) = bm ! (j div 8)" using False bm' by simp
    ultimately show ?thesis unfolding n1 n2 by simp
  qed
qed

text \<open>The bitmap that the loop of \<open>pack_row\<close> leaves: a bit for each null column.\<close>

lemma pack_cols_bits:
  "pack_cols r sch i bm parts = Inr (bm', parts') \<Longrightarrow>
     length bm' = length bm
     \<and> (\<forall>j. j div 8 < length bm \<longrightarrow>
            is_null bm' j
              = (if i \<le> j \<and> j < i + length sch \<and> row_get r (fst (sch ! (j - i))) = VNone
                 then Inr True else is_null bm j))"
proof (induction sch arbitrary: i bm parts)
  case Nil
  then show ?case by auto
next
  case (Cons c rest)
  obtain name ty where c: "c = (name, ty)" by (cases c)
  show ?case
  proof (cases "row_get r name = VNone")
    case True
    with Cons.prems c obtain bm1 where
      s: "set_null bm i = Inr bm1" and p: "pack_cols r rest (Suc i) bm1 parts = Inr (bm', parts')"
      by (auto split: sum.splits)
    note sn = set_null_is_null[OF s]
    from Cons.IH[OF p] have l: "length bm' = length bm1"
      and b: "\<And>j. j div 8 < length bm1 \<Longrightarrow>
            is_null bm' j
              = (if Suc i \<le> j \<and> j < Suc i + length rest
                    \<and> row_get r (fst (rest ! (j - Suc i))) = VNone
                 then Inr True else is_null bm1 j)" by auto
    have "is_null bm' j
              = (if i \<le> j \<and> j < i + length (c # rest)
                    \<and> row_get r (fst ((c # rest) ! (j - i))) = VNone
                 then Inr True else is_null bm j)" if j: "j div 8 < length bm" for j
    proof (cases "j = i")
      case e: True
      then show ?thesis using b[of j] j sn True c by simp
    next
      case False
      show ?thesis
      proof (cases "Suc i \<le> j")
        case g: True
        then have "(c # rest) ! (j - i) = rest ! (j - Suc i)"
          by (simp add: Suc_diff_le)
        with b[of j] j sn False g show ?thesis by auto
      next
        case l: False
        with False have "j < i" by simp
        with b[of j] j sn False show ?thesis by simp
      qed
    qed
    with l sn(1) show ?thesis by simp
  next
    case False
    with Cons.prems c obtain bs where
      p: "pack_cols r rest (Suc i) bm (parts @ bs) = Inr (bm', parts')"
      by (auto split: sum.splits)
    from Cons.IH[OF p] have l: "length bm' = length bm"
      and b: "\<And>j. j div 8 < length bm \<Longrightarrow>
            is_null bm' j
              = (if Suc i \<le> j \<and> j < Suc i + length rest
                    \<and> row_get r (fst (rest ! (j - Suc i))) = VNone
                 then Inr True else is_null bm j)" by auto
    have "is_null bm' j
              = (if i \<le> j \<and> j < i + length (c # rest)
                    \<and> row_get r (fst ((c # rest) ! (j - i))) = VNone
                 then Inr True else is_null bm j)" if j: "j div 8 < length bm" for j
    proof (cases "j = i")
      case e: True
      then show ?thesis using b[of j] j False c by simp
    next
      case ne: False
      show ?thesis
      proof (cases "Suc i \<le> j")
        case g: True
        then have "(c # rest) ! (j - i) = rest ! (j - Suc i)"
          by (simp add: Suc_diff_le)
        with b[of j] j ne g show ?thesis by auto
      next
        case l: False
        with ne have "j < i" by simp
        with b[of j] j show ?thesis by simp
      qed
    qed
    with l show ?thesis by simp
  qed
qed

lemma pack_cols_parts:
  "pack_cols r sch i bm parts = Inr (bm', parts') \<Longrightarrow> \<exists>ps. parts' = parts @ ps"
proof (induction sch arbitrary: i bm parts)
  case Nil
  then show ?case by simp
next
  case (Cons c rest)
  obtain name ty where c: "c = (name, ty)" by (cases c)
  show ?case
  proof (cases "row_get r name = VNone")
    case True
    with Cons.prems c obtain bm1 where
      "pack_cols r rest (Suc i) bm1 parts = Inr (bm', parts')"
      by (auto split: sum.splits)
    from Cons.IH[OF this] show ?thesis .
  next
    case False
    with Cons.prems c obtain bs where
      "pack_cols r rest (Suc i) bm (parts @ bs) = Inr (bm', parts')"
      by (auto split: sum.splits)
    from Cons.IH[OF this] show ?thesis by auto
  qed
qed

lemma field_from_mid:
  "length bs = n \<Longrightarrow> field_from (a @ bs @ c) (length a) n = Inr bs"
  by (simp add: field_from_def)

lemma signed32_mod:
  assumes "- (2 ^ 31) \<le> i" "i < 2 ^ 31"
  shows "signed32 (i mod 2 ^ 32) = i"
proof (cases "0 \<le> i")
  case True
  then have "i mod 2 ^ 32 = i" using assms by simp
  then show ?thesis using assms by (simp add: signed32_def)
next
  case False
  have "(i + 2 ^ 32) mod 2 ^ 32 = i + 2 ^ 32"
    using False assms by (intro mod_pos_pos_trivial) auto
  then have "i mod 2 ^ 32 = i + 2 ^ 32" by simp
  then show ?thesis using False assms by (simp add: signed32_def)
qed
lemma pack_field_int:
  assumes "pack_field ''INT'' v = Inr bs"
  shows "\<exists>k. v = VInt k \<and> - (2 ^ 31) \<le> k \<and> k < 2 ^ 31 \<and> bs = le_bytes 4 k"
proof (cases v)
  case (VInt k)
  with assms show ?thesis
    by (simp add: pack_field_def py_int_def pack_i_def split: if_splits)
qed (use assms in \<open>simp_all add: pack_field_def py_int_def\<close>)

lemma pack_field_float:
  assumes "pack_field ''FLOAT'' v = Inr bs"
  shows "\<exists>w. v = VFloat w \<and> bs = le_bytes 8 (uint w)"
proof (cases v)
  case (VFloat w)
  with assms show ?thesis
    by (simp add: pack_field_def py_float_def pack_d_def)
qed (use assms in \<open>simp_all add: pack_field_def py_float_def\<close>)

lemma pack_field_str:
  assumes "pack_field ty v = Inr bs" "ty \<noteq> ''INT''" "ty \<noteq> ''FLOAT''"
  shows "(startswith ty ''VARCHAR'' \<or> ty = ''DATE'')
         \<and> (\<exists>b. v = VStr b
               \<and> bs = le_bytes 2 (int (length (if startswith ty ''VARCHAR''
                                                 then take (varchar_max ty) b else b)))
                      @ (if startswith ty ''VARCHAR'' then take (varchar_max ty) b else b)
               \<and> length (if startswith ty ''VARCHAR'' then take (varchar_max ty) b else b) < 65536)"
proof (cases v)
  case (VStr b)
  show ?thesis
  proof (cases "startswith ty ''VARCHAR''")
    case True
    have "(if varchar_max ty < length b then take (varchar_max ty) b else b) = take (varchar_max ty) b"
      by simp
    with assms VStr True show ?thesis
      by (simp add: pack_field_def py_str_utf8_def pack_H_def Let_def split: if_splits)
  next
    case False
    with assms VStr show ?thesis
      by (simp add: pack_field_def py_str_utf8_def pack_H_def split: if_splits)
  qed
qed (use assms in \<open>simp_all add: pack_field_def py_str_utf8_def split: if_splits\<close>)
text \<open>A packed field, wherever it lies in a buffer, is read back as the value it held.\<close>

lemma unpack_pack_int:
  assumes "pack_field ''INT'' v = Inr bs"
  shows "unpack_field ''INT'' (a @ bs @ c) (length a) = Inr (v, length a + length bs)"
proof -
  from pack_field_int[OF assms] obtain k where
    v: "v = VInt k" and r: "- (2 ^ 31) \<le> k" "k < 2 ^ 31" and bs: "bs = le_bytes 4 k" by blast
  have "le_int bs = k mod 2 ^ 32" unfolding bs by (simp add: le_int_le_bytes)
  with signed32_mod[OF r] have "signed32 (le_int bs) = k" by simp
  moreover have "field_from (a @ bs @ c) (length a) 4 = Inr bs"
    by (rule field_from_mid) (simp add: bs)
  moreover have "length bs = 4" by (simp add: bs)
  ultimately show ?thesis using v
    by (simp add: unpack_field_def unpack_i_from_def)
qed

lemma unpack_pack_float:
  assumes "pack_field ''FLOAT'' v = Inr bs"
  shows "unpack_field ''FLOAT'' (a @ bs @ c) (length a) = Inr (v, length a + length bs)"
proof -
  from pack_field_float[OF assms] obtain w where
    v: "v = VFloat w" and bs: "bs = le_bytes 8 (uint w)" by blast
  have "uint w < 2 ^ 64" using uint_bounded[of w] by simp
  then have "le_int bs = uint w" unfolding bs by (simp add: le_int_le_bytes)
  then have "(word_of_int (le_int bs) :: 64 word) = w" by simp
  moreover have "field_from (a @ bs @ c) (length a) 8 = Inr bs"
    by (rule field_from_mid) (simp add: bs)
  moreover have "length bs = 8" by (simp add: bs)
  ultimately show ?thesis using v
    by (simp add: unpack_field_def unpack_d_from_def)
qed

lemma unpack_pack_str:
  assumes pk: "pack_field ty (VStr b) = Inr bs" and t: "ty \<noteq> ''INT''" "ty \<noteq> ''FLOAT''"
    and u: "utf8_ok b" and le: "startswith ty ''VARCHAR'' \<longrightarrow> length b \<le> varchar_max ty"
  shows "unpack_field ty (a @ bs @ c) (length a) = Inr (VStr b, length a + length bs)"
proof -
  from le have e: "(if startswith ty ''VARCHAR'' then take (varchar_max ty) b else b) = b"
    by simp
  let ?c = "\<lambda>x. if startswith ty ''VARCHAR'' then take (varchar_max ty) x else x"
  from pack_field_str[OF pk t] obtain b' where
    s: "startswith ty ''VARCHAR'' \<or> ty = ''DATE''" and v: "VStr b = VStr b'"
    and bs': "bs = le_bytes 2 (int (length (?c b'))) @ ?c b'" and ln': "length (?c b') < 65536"
    by blast
  from v have bb: "b' = b" by simp
  have bs: "bs = le_bytes 2 (int (length b)) @ b" using bs' unfolding bb e .
  have ln: "length b < 65536" using ln' unfolding bb e .
  have "field_from (a @ bs @ c) (length a) 2 = Inr (le_bytes 2 (int (length b)))"
    using field_from_mid[of "le_bytes 2 (int (length b))" 2 a "b @ c"] by (simp add: bs)
  moreover have "le_int (le_bytes 2 (int (length b))) = int (length b)"
    using ln by (simp add: le_int_le_bytes)
  ultimately have h: "unpack_H_from (a @ bs @ c) (length a) = Inr (int (length b))"
    by (simp add: unpack_H_from_def)
  have "drop (length a + 2) (a @ bs @ c) = b @ c" by (simp add: bs)
  then have tk: "take (length b) (drop (length a + 2) (a @ bs @ c)) = b" by simp
  have lb: "length bs = 2 + length b" by (simp add: bs)
  show ?thesis
    unfolding unpack_field_def using t s h tk u lb
    by (simp add: utf8_decode_def)
qed

lemma unpack_pack_field:
  assumes pk: "pack_field ty v = Inr bs"
    and fit: "case v of VStr b \<Rightarrow> utf8_ok b \<and> (startswith ty ''VARCHAR'' \<longrightarrow> length b \<le> varchar_max ty)
              | _ \<Rightarrow> True"
  shows "unpack_field ty (a @ bs @ c) (length a) = Inr (v, length a + length bs)"
proof (cases "ty = ''INT''")
  case True
  with pk show ?thesis using unpack_pack_int by simp
next
  case ni: False
  show ?thesis
  proof (cases "ty = ''FLOAT''")
    case True
    with pk show ?thesis using unpack_pack_float by simp
  next
    case nf: False
    from pack_field_str[OF pk ni nf] obtain b where v: "v = VStr b" by blast
    with fit have "utf8_ok b" "startswith ty ''VARCHAR'' \<longrightarrow> length b \<le> varchar_max ty"
      by simp_all
    from unpack_pack_str[OF pk[unfolded v] ni nf this] v show ?thesis by simp
  qed
qed
text \<open>The loop of \<open>unpack_row\<close> over the payload that the loop of \<open>pack_row\<close> wrote.\<close>

lemma unpack_pack_cols:
  "pack_cols r sch i bm parts = Inr (bm', parts') \<Longrightarrow> list_all (col_fits r) sch \<Longrightarrow>
   (\<forall>j. i \<le> j \<and> j < i + length sch
        \<longrightarrow> is_null bmf j = Inr (row_get r (fst (sch ! (j - i))) = VNone)) \<Longrightarrow>
   unpack_cols (pre @ parts' @ suf) bmf sch i (length pre + length parts) out
     = Inr (\<lambda>x. if x \<in> fst ` set sch then Some (row_get r x) else out x)"
proof (induction sch arbitrary: i bm parts out)
  case Nil
  then show ?case by simp
next
  case (Cons c rest)
  obtain name ty where c: "c = (name, ty)" by (cases c)
  let ?buf = "pre @ parts' @ suf"
  have n0: "is_null bmf i = Inr (row_get r name = VNone)"
    using Cons.prems(3)[rule_format, of i] c by simp
  have nr: "\<forall>j. Suc i \<le> j \<and> j < Suc i + length rest
        \<longrightarrow> is_null bmf j = Inr (row_get r (fst (rest ! (j - Suc i))) = VNone)"
  proof (intro allI impI)
    fix j assume j: "Suc i \<le> j \<and> j < Suc i + length rest"
    then have "(c # rest) ! (j - i) = rest ! (j - Suc i)" by (simp add: Suc_diff_le)
    with Cons.prems(3)[rule_format, of j] j show
      "is_null bmf j = Inr (row_get r (fst (rest ! (j - Suc i))) = VNone)" by simp
  qed
  have fr: "list_all (col_fits r) rest" and fc: "col_fits r c" using Cons.prems(2) by simp_all
  show ?case
  proof (cases "row_get r name = VNone")
    case True
    with Cons.prems(1) c obtain bm1 where
      p: "pack_cols r rest (Suc i) bm1 parts = Inr (bm', parts')"
      by (auto split: sum.splits)
    have "unpack_cols ?buf bmf (c # rest) i (length pre + length parts) out
            = unpack_cols ?buf bmf rest (Suc i) (length pre + length parts) (out(name \<mapsto> VNone))"
      using n0 True c by simp
    also have "\<dots> = Inr (\<lambda>x. if x \<in> fst ` set rest then Some (row_get r x)
                               else (out(name \<mapsto> VNone)) x)"
      by (rule Cons.IH[OF p fr nr])
    also have "(\<lambda>x. if x \<in> fst ` set rest then Some (row_get r x) else (out(name \<mapsto> VNone)) x)
                = (\<lambda>x. if x \<in> fst ` set (c # rest) then Some (row_get r x) else out x)"
      using True c by (intro ext) auto
    finally show ?thesis .
  next
    case False
    with Cons.prems(1) c obtain bs where
      f: "pack_field ty (row_get r name) = Inr bs"
      and p: "pack_cols r rest (Suc i) bm (parts @ bs) = Inr (bm', parts')"
      by (auto split: sum.splits)
    from pack_cols_parts[OF p] obtain ps where ps: "parts' = (parts @ bs) @ ps" by blast
    have fit: "case row_get r name of
                 VStr b \<Rightarrow> utf8_ok b \<and> (startswith ty ''VARCHAR'' \<longrightarrow> length b \<le> varchar_max ty)
               | _ \<Rightarrow> True"
      using fc c by (simp add: col_fits_def split: pyval.splits)
    have "?buf = (pre @ parts) @ bs @ (ps @ suf)" by (simp add: ps)
    with unpack_pack_field[OF f fit, of "pre @ parts" "ps @ suf"]
    have uf: "unpack_field ty ?buf (length pre + length parts)
                = Inr (row_get r name, length pre + length (parts @ bs))"
      by (simp add: add.assoc)
    have "unpack_cols ?buf bmf (c # rest) i (length pre + length parts) out
            = unpack_cols ?buf bmf rest (Suc i) (length pre + length (parts @ bs))
                (out(name \<mapsto> row_get r name))"
      using n0 False c uf by simp
    also have "\<dots> = Inr (\<lambda>x. if x \<in> fst ` set rest then Some (row_get r x)
                               else (out(name \<mapsto> row_get r name)) x)"
      by (rule Cons.IH[OF p fr nr])
    also have "(\<lambda>x. if x \<in> fst ` set rest then Some (row_get r x)
                     else (out(name \<mapsto> row_get r name)) x)
                = (\<lambda>x. if x \<in> fst ` set (c # rest) then Some (row_get r x) else out x)"
      using c by (intro ext) auto
    finally show ?thesis .
  qed
qed

lemma is_null_zero: "j div 8 < k \<Longrightarrow> is_null (replicate k 0) j = Inr False"
  by (simp add: is_null_def)

text \<open>A row that fits its schema is read back as it was packed, missing columns as null.\<close>

lemma unpack_pack_row:
  assumes pk: "pack_row r sch = Inr blob" and fit: "row_fits r sch"
  shows "unpack_row blob sch = Inr (normalized r sch)"
proof -
  let ?n = "length sch"
  from pk obtain header nullmap parts where
    h: "pack_H (int ?n) = Inr header"
    and pc: "pack_cols r sch 0 (replicate (nullmap_size ?n) 0) [] = Inr (nullmap, parts)"
    and blob: "blob = header @ nullmap @ parts"
    by (auto simp: pack_row_def Let_def split: sum.splits)
  from h have n: "?n < 65536" and hdr: "header = le_bytes 2 (int ?n)"
    by (auto simp: pack_H_def split: if_splits)
  from pack_cols_bits[OF pc] have ln: "length nullmap = nullmap_size ?n"
    and bits: "\<And>j. j div 8 < nullmap_size ?n \<Longrightarrow>
            is_null nullmap j
              = (if j < ?n \<and> row_get r (fst (sch ! j)) = VNone
                 then Inr True else is_null (replicate (nullmap_size ?n) 0) j)"
    by auto
  have nb: "\<forall>j. 0 \<le> j \<and> j < 0 + ?n
              \<longrightarrow> is_null nullmap j = Inr (row_get r (fst (sch ! (j - 0))) = VNone)"
  proof (intro allI impI)
    fix j assume "0 \<le> j \<and> j < 0 + ?n"
    then have j: "j < ?n" by simp
    then have d: "j div 8 < nullmap_size ?n" by (simp add: nullmap_size_def)
    from bits[OF d] is_null_zero[OF d] j
    show "is_null nullmap j = Inr (row_get r (fst (sch ! (j - 0))) = VNone)" by simp
  qed
  have "field_from blob 0 2 = Inr header"
    using field_from_mid[of header 2 "[]" "nullmap @ parts"] by (simp add: blob hdr)
  moreover have "le_int header = int ?n" using n by (simp add: hdr le_int_le_bytes)
  ultimately have u: "unpack_H_from blob 0 = Inr (int ?n)" by (simp add: unpack_H_from_def)
  have bm: "take (nullmap_size ?n) (drop 2 blob) = nullmap" by (simp add: blob hdr ln)
  from unpack_pack_cols[OF pc, of nullmap "header @ nullmap" "[]" Map.empty] fit nb
  have "unpack_cols blob nullmap sch 0 (2 + nullmap_size ?n) Map.empty
          = Inr (\<lambda>x. if x \<in> fst ` set sch then Some (row_get r x) else None)"
    by (simp add: row_fits_def blob hdr ln)
  with u bm show ?thesis by (simp add: unpack_row_def normalized_def)
qed
section \<open>Round trip of the row codec\<close>

text \<open>
  C4 (amended).  For every schema and every row that \<open>pack_row\<close> accepts, in which no
  value of a \<open>VARCHAR(N)\<close> column is longer than \<open>N\<close> bytes of UTF-8 (and every string is
  the encoding of a Python \<open>str\<close>), \<open>unpack_row\<close> of the packed row returns the
  row with missing columns normalized to null: exactly the columns of the schema, each
  with the value the row gave it, and null where the row had none or had null.  A
  \<open>FLOAT\<close> comes back with the same 64 bits.
\<close>

theorem pack_unpack_round_trip:
  assumes "pack_row rw sch = Inr blob" "row_fits rw sch"
  shows "unpack_row blob sch = Inr (normalized rw sch)"
  using assms by (rule unpack_pack_row)

theorem pack_unpack_round_trip_witness:
  "pack_row [''i'' \<mapsto> VInt (- 5), ''s'' \<mapsto> VStr [97, 98]]
      [(''i'', ''INT''), (''s'', ''VARCHAR(10)''), (''n'', ''FLOAT'')]
     = Inr [3, 0, 4, 251, 255, 255, 255, 2, 0, 97, 98]
   \<and> row_fits [''i'' \<mapsto> VInt (- 5), ''s'' \<mapsto> VStr [97, 98]]
        [(''i'', ''INT''), (''s'', ''VARCHAR(10)''), (''n'', ''FLOAT'')]
   \<and> unpack_row [3, 0, 4, 251, 255, 255, 255, 2, 0, 97, 98]
        [(''i'', ''INT''), (''s'', ''VARCHAR(10)''), (''n'', ''FLOAT'')]
     = Inr (normalized [''i'' \<mapsto> VInt (- 5), ''s'' \<mapsto> VStr [97, 98]]
              [(''i'', ''INT''), (''s'', ''VARCHAR(10)''), (''n'', ''FLOAT'')])"
proof -
  let ?rw = "[''i'' \<mapsto> VInt (- 5), ''s'' \<mapsto> VStr [97, 98]]"
  let ?sch = "[(''i'', ''INT''), (''s'', ''VARCHAR(10)''), (''n'', ''FLOAT'')]"
  have pk: "pack_row ?rw ?sch = Inr [3, 0, 4, 251, 255, 255, 255, 2, 0, 97, 98]"
    by code_simp
  have ft: "row_fits ?rw ?sch" by code_simp
  from pack_unpack_round_trip[OF pk ft] pk ft show ?thesis by simp
qed

text \<open>
  The claim as it stands fails where \<open>pack_row\<close> cuts a value: a \<open>VARCHAR(2)\<close> column
  given the three characters \<open>abc\<close> is packed as \<open>ab\<close>, and that is what comes back.
\<close>

theorem varchar_cut_not_restored:
  "pack_row [''a'' \<mapsto> VStr [97, 98, 99]] [(''a'', ''VARCHAR(2)'')] = Inr [1, 0, 0, 2, 0, 97, 98]
   \<and> unpack_row [1, 0, 0, 2, 0, 97, 98] [(''a'', ''VARCHAR(2)'')] = Inr [''a'' \<mapsto> VStr [97, 98]]
   \<and> unpack_row [1, 0, 0, 2, 0, 97, 98] [(''a'', ''VARCHAR(2)'')]
       \<noteq> Inr (normalized [''a'' \<mapsto> VStr [97, 98, 99]] [(''a'', ''VARCHAR(2)'')])"
proof -
  let ?rw = "[''a'' \<mapsto> VStr [97, 98, 99]]"
  let ?sch = "[(''a'', ''VARCHAR(2)'')]"
  have pk: "pack_row ?rw ?sch = Inr [1, 0, 0, 2, 0, 97, 98]" by code_simp
  have un: "unpack_row [1, 0, 0, 2, 0, 97, 98] ?sch = Inr [''a'' \<mapsto> VStr [97, 98]]"
    by (simp add: unpack_row_def unpack_H_from_def field_from_def nullmap_size_def
        is_null_def unpack_field_def startswith_def utf8_decode_def)
  have nz: "normalized ?rw ?sch ''a'' = Some (VStr [97, 98, 99])"
    by (simp add: normalized_def row_get_def)
  have "normalized ?rw ?sch \<noteq> [''a'' \<mapsto> VStr [97, 98]]"
  proof
    assume "normalized ?rw ?sch = [''a'' \<mapsto> VStr [97, 98]]"
    then have "normalized ?rw ?sch ''a'' = [''a'' \<mapsto> VStr [97, 98]] ''a''" by simp
    with nz show False by simp
  qed
  with pk un show ?thesis by simp
qed

section \<open>Reading and scanning the heap\<close>






section \<open>The loop over the indexes\<close>


section \<open>insert of the executor with a missing indexed column\<close>




section \<open>Decoding a cut buffer\<close>










section \<open>unpack\_row on a cut buffer\<close>




end
